theory Spec2Isabelle
  imports Main "HOL-Library.Char_ord" "HOL-Library.List_Lexorder"
begin

section \<open>Catalog index\<close>

text \<open>
  The element store of the path-finding engine: elements by name, the flat recipe list,
  the basic (tier 0) names in insertion order and the tier of every name.
\<close>

record Element =
  ID :: string
  ElementRecipes :: "string list list"
  ImageURL :: string

record Recipe =
  Ingredients :: "string list"
  Result :: string

record ElementStore =
  Elements :: "string \<rightharpoonup> Element"
  Recipes :: "Recipe list"
  BasicElements :: "string list"
  TierMap :: "string \<rightharpoonup> int"

datatype error = ErrElementNotFound | ErrNoBasicElements | ErrNoPathFound

text \<open>
  A call either returns a value, panics (a nil dereference), or never returns a value (a
  walk or a recursion without end, which the runtime aborts at best).
\<close>

datatype 'a run = Returns 'a | Panics | Diverges

definition GetBasicElements :: "ElementStore \<Rightarrow> Element list" where
  "GetBasicElements es = List.map_filter (Elements es) (BasicElements es)"

definition IsBasicElement :: "ElementStore \<Rightarrow> string \<Rightarrow> bool" where
  "IsBasicElement es elementID = (elementID \<in> set (BasicElements es))"

definition GetElementTier :: "ElementStore \<Rightarrow> string \<Rightarrow> int" where
  "GetElementTier es elementID = (case TierMap es elementID of None \<Rightarrow> -1 | Some tier \<Rightarrow> tier)"

text \<open>
  Tiers, depths and counters are Go \<open>int\<close>s, 64 bits wide on the platforms the server is
  built for. \<open>wrap64\<close> is the value that two's complement arithmetic keeps of an exact
  result; it is applied where the code computes the depth ceiling from a tier, the one
  place where a result can leave the range (a depth is incremented only below the
  ceiling).
\<close>

definition wrap64 :: "int \<Rightarrow> int" where
  "wrap64 i = (i + 2 ^ 63) mod 2 ^ 64 - 2 ^ 63"

text \<open>The check \<open>ingredientTier >= resultTier\<close> made over every ingredient of a recipe.\<close>

definition allIngredientsLowerTier :: "ElementStore \<Rightarrow> Recipe \<Rightarrow> bool" where
  "allIngredientsLowerTier es recipe =
     list_all (\<lambda>ingredient. \<not> GetElementTier es ingredient \<ge> GetElementTier es (Result recipe))
       (Ingredients recipe)"

section \<open>Search results\<close>

record RecipeStep =
  ParentID :: string
  StepRecipe :: Recipe

record TreeNode =
  node_id :: string
  node_type :: string
  node_tier :: int
  node_imageUrl :: string

record TreeStructure =
  tree_nodes :: "TreeNode list"
  tree_edges :: "(string \<times> string) list"
  tree_target :: string
  tree_recipes :: "Recipe list"

record SearchResult =
  Path :: "Recipe list"
  VisitedNodes :: int
  ExecutionTime :: int
  TreeStructure :: TreeStructure
  VariationIndex :: int

section \<open>Path reconstruction\<close>

text \<open>
  \<open>reconstructPath\<close> walks the parent map from the target until a name has no entry,
  prepending each recipe. The walk has no bound of its own, so the model is a partial
  function: \<open>None\<close> is a walk that never ends.
\<close>

partial_function (option) reconstructPath_walk ::
  "(string \<rightharpoonup> RecipeStep) \<Rightarrow> string \<Rightarrow> Recipe list \<Rightarrow> Recipe list option" where
  "reconstructPath_walk parentMap current path =
     (case parentMap current of
        None \<Rightarrow> Some path
      | Some step \<Rightarrow> reconstructPath_walk parentMap (ParentID step) (StepRecipe step # path))"

declare reconstructPath_walk.simps [code]

definition reconstructPath :: "string \<Rightarrow> (string \<rightharpoonup> RecipeStep) \<Rightarrow> Recipe list option" where
  "reconstructPath target parentMap = reconstructPath_walk parentMap target []"

section \<open>Display tree\<close>

record tree_state =
  nodes :: "TreeNode list"
  edges :: "(string \<times> string) list"
  nodeMap :: "string set"

definition recipesByResult :: "Recipe list \<Rightarrow> (string \<rightharpoonup> Recipe)" where
  "recipesByResult path = foldl (\<lambda>m recipe. m(Result recipe \<mapsto> recipe)) Map.empty path"

text \<open>
  One pass of the loop body of \<open>buildNodes\<close> for an ingredient, up to the recursive call:
  a node is added for a name not yet drawn (reading the image of \<open>Elements[ingredient]\<close>,
  which is a nil dereference when the name is no element), then the edge.
\<close>

definition addIngredient :: "ElementStore \<Rightarrow> string \<Rightarrow> string \<Rightarrow> tree_state \<Rightarrow> tree_state option" where
  "addIngredient es element ingredient ts =
     (if ingredient \<notin> nodeMap ts then
        (case Elements es ingredient of
           None \<Rightarrow> None
         | Some ingElem \<Rightarrow>
             Some (ts\<lparr>nodes := nodes ts @
                         [\<lparr>node_id = ingredient,
                           node_type = (if IsBasicElement es ingredient then ''basic'' else ''ingredient''),
                           node_tier = GetElementTier es ingredient,
                           node_imageUrl = ImageURL ingElem\<rparr>],
                      nodeMap := insert ingredient (nodeMap ts),
                      edges := edges ts @ [(ingredient, element)]\<rparr>))
      else Some (ts\<lparr>edges := edges ts @ [(ingredient, element)]\<rparr>))"

text \<open>
  \<open>buildNodes\<close> recurses into every ingredient of the recipe recorded for an element. The
  two shapes of a pending call are an element to expand (\<open>Expand\<close>) and the rest of the
  ingredient loop of an element (\<open>Loop\<close>). The outer \<open>option\<close> is non-termination, the
  inner one the nil dereference.
\<close>

datatype build_task = Expand string | Loop string "string list"

partial_function (option) buildNodes ::
  "ElementStore \<Rightarrow> (string \<rightharpoonup> Recipe) \<Rightarrow> build_task \<Rightarrow> tree_state \<Rightarrow> tree_state option option" where
  "buildNodes es byResult task ts =
     (case task of
        Expand element \<Rightarrow>
          (case byResult element of
             None \<Rightarrow> Some (Some ts)
           | Some recipe \<Rightarrow> buildNodes es byResult (Loop element (Ingredients recipe)) ts)
      | Loop element [] \<Rightarrow> Some (Some ts)
      | Loop element (ingredient # rest) \<Rightarrow>
          (case addIngredient es element ingredient ts of
             None \<Rightarrow> Some None
           | Some ts1 \<Rightarrow>
               Option.bind (buildNodes es byResult (Expand ingredient) ts1)
                 (\<lambda>r. case r of
                         None \<Rightarrow> Some None
                       | Some ts2 \<Rightarrow> buildNodes es byResult (Loop element rest) ts2)))"

declare buildNodes.simps [code]

definition buildTreeStructure :: "ElementStore \<Rightarrow> Recipe list \<Rightarrow> string \<Rightarrow> TreeStructure run" where
  "buildTreeStructure es path target =
     (case Elements es target of
        None \<Rightarrow> Panics
      | Some targetElem \<Rightarrow>
          (case buildNodes es (recipesByResult path) (Expand target)
                  \<lparr>nodes = [\<lparr>node_id = target, node_type = ''target'',
                             node_tier = GetElementTier es target,
                             node_imageUrl = ImageURL targetElem\<rparr>],
                   edges = [], nodeMap = {target}\<rparr> of
             None \<Rightarrow> Diverges
           | Some None \<Rightarrow> Panics
           | Some (Some ts) \<Rightarrow>
               Returns \<lparr>tree_nodes = nodes ts, tree_edges = edges ts,
                        tree_target = target, tree_recipes = path\<rparr>))"

text \<open>The tail of every search: display tree and result record for the path found.\<close>

definition assemble ::
  "ElementStore \<Rightarrow> string \<Rightarrow> Recipe list \<Rightarrow> int \<Rightarrow> int \<Rightarrow> int \<Rightarrow> (error + SearchResult) run" where
  "assemble es target path visitedNodes elapsed variationIndex =
     (case buildTreeStructure es path target of
        Diverges \<Rightarrow> Diverges
      | Panics \<Rightarrow> Panics
      | Returns tree \<Rightarrow>
          Returns (Inr \<lparr>Path = path, VisitedNodes = visitedNodes,
                        ExecutionTime = elapsed, TreeStructure = tree,
                        VariationIndex = variationIndex\<rparr>))"

definition finish ::
  "ElementStore \<Rightarrow> string \<Rightarrow> (string \<rightharpoonup> RecipeStep) \<Rightarrow> int \<Rightarrow> int \<Rightarrow> int \<Rightarrow>
   (error + SearchResult) run" where
  "finish es target parentMap visitedNodes elapsed variationIndex =
     (case reconstructPath target parentMap of
        None \<Rightarrow> Diverges
      | Some path \<Rightarrow> assemble es target path visitedNodes elapsed variationIndex)"

section \<open>Breadth-first engine\<close>

text \<open>
  The repository holds two revisions of the breadth-first and of the depth-first finder.
  They share every line of the search loops except the recipe filter: the earlier revision
  (\<open>Loose\<close>) keeps a recipe when its result tier exceeds the tier of the element being
  expanded; the later one (\<open>Strict\<close>) also drops results above the target tier and recipes
  with an ingredient whose tier is not below the result tier.
\<close>

datatype revision = Loose | Strict

record marks =
  visited :: "string set"
  parent :: "string \<rightharpoonup> RecipeStep"
  visitedCount :: int

record bfs_state = marks +
  queue :: "string list"
  found :: bool

definition isIngredient :: "string \<Rightarrow> Recipe \<Rightarrow> bool" where
  "isIngredient elementID recipe = (elementID \<in> set (Ingredients recipe))"

text \<open>\<open>getPossibleRecipesThatRespectTiers\<close>, in its two-argument and three-argument form.\<close>

definition getPossibleRecipesThatRespectTiers ::
  "revision \<Rightarrow> ElementStore \<Rightarrow> string \<Rightarrow> int \<Rightarrow> int \<Rightarrow> Recipe list" where
  "getPossibleRecipesThatRespectTiers rv es elementID currentTier targetTier =
     (case rv of
        Loose \<Rightarrow>
          [recipe \<leftarrow> Recipes es.
             isIngredient elementID recipe \<and> GetElementTier es (Result recipe) > currentTier]
      | Strict \<Rightarrow>
          [recipe \<leftarrow> Recipes es.
             isIngredient elementID recipe \<and>
             \<not> GetElementTier es (Result recipe) > targetTier \<and>
             allIngredientsLowerTier es recipe \<and>
             GetElementTier es (Result recipe) > currentTier])"

definition enqueue :: "string \<Rightarrow> Recipe \<Rightarrow> bfs_state \<Rightarrow> bfs_state" where
  "enqueue current recipe st =
     st\<lparr>queue := queue st @ [Result recipe],
        visited := insert (Result recipe) (visited st),
        parent := (parent st)(Result recipe \<mapsto> \<lparr>ParentID = current, StepRecipe = recipe\<rparr>),
        visitedCount := visitedCount st + 1\<rparr>"

text \<open>The loop over the possible recipes of the element taken from the queue.\<close>

fun bfs_expand ::
  "revision \<Rightarrow> ElementStore \<Rightarrow> string \<Rightarrow> string \<Rightarrow> Recipe list \<Rightarrow> bfs_state \<Rightarrow> bfs_state" where
  "bfs_expand rv es target current [] st = st"
| "bfs_expand rv es target current (recipe # rest) st =
     (if rv = Strict \<and> \<not> allIngredientsLowerTier es recipe then
        bfs_expand rv es target current rest st
      else if GetElementTier es (Result recipe) \<le> GetElementTier es current then
        bfs_expand rv es target current rest st
      else if Result recipe \<notin> visited st then
        (if Result recipe = target then (enqueue current recipe st)\<lparr>found := True\<rparr>
         else bfs_expand rv es target current rest (enqueue current recipe st))
      else bfs_expand rv es target current rest st)"

definition bfs_measure :: "ElementStore \<Rightarrow> bfs_state \<Rightarrow> nat" where
  "bfs_measure es st =
     2 * card (Result ` set (Recipes es) - visited st) + length (queue st)"

lemma bfs_expand_measure:
  "set cands \<subseteq> set (Recipes es) \<Longrightarrow>
   bfs_measure es (bfs_expand rv es target current cands st) \<le> bfs_measure es st"
proof (induction cands arbitrary: st)
  case Nil
  then show ?case by simp
next
  case (Cons recipe rest)
  have fresh: "bfs_measure es (enqueue current recipe st) \<le> bfs_measure es st"
    if "Result recipe \<notin> visited st"
  proof -
    let ?U = "Result ` set (Recipes es)"
    have mem: "Result recipe \<in> ?U - visited st"
      using Cons.prems that by auto
    have fin: "finite (?U - visited st)" by simp
    have eq: "?U - insert (Result recipe) (visited st) = (?U - visited st) - {Result recipe}"
      by auto
    have "card (?U - visited st) > 0"
      using mem fin card_gt_0_iff by blast
    then show ?thesis
      using mem fin by (simp add: bfs_measure_def enqueue_def eq)
  qed
  have rest: "set rest \<subseteq> set (Recipes es)" using Cons.prems by simp
  show ?case
    using Cons.IH[OF rest, of st] Cons.IH[OF rest, of "enqueue current recipe st"] fresh
    by (auto simp: bfs_measure_def)
qed

lemma getPossible_subset:
  "set (getPossibleRecipesThatRespectTiers rv es elementID currentTier targetTier)
     \<subseteq> set (Recipes es)"
  by (cases rv) (auto simp: getPossibleRecipesThatRespectTiers_def)

text \<open>The queue loop of \<open>FindShortestPath\<close>.\<close>

function bfs_loop :: "revision \<Rightarrow> ElementStore \<Rightarrow> string \<Rightarrow> bfs_state \<Rightarrow> bfs_state" where
  "bfs_loop rv es target st =
     (case queue st of
        [] \<Rightarrow> st
      | current # rest \<Rightarrow>
          if found st then st
          else if current = target then st\<lparr>queue := rest, found := True\<rparr>
          else bfs_loop rv es target
                 (bfs_expand rv es target current
                    (getPossibleRecipesThatRespectTiers rv es current
                       (GetElementTier es current) (GetElementTier es target))
                    (st\<lparr>queue := rest\<rparr>)))"
  by pat_completeness auto

termination
proof (relation "measure (\<lambda>(rv, es, target, st). bfs_measure es st)", goal_cases)
  case 1
  then show ?case by simp
next
  case (2 rv es target st current rest)
  have "bfs_measure es (bfs_expand rv es target current
          (getPossibleRecipesThatRespectTiers rv es current
             (GetElementTier es current) (GetElementTier es target))
          (st\<lparr>queue := rest\<rparr>)) \<le> bfs_measure es (st\<lparr>queue := rest\<rparr>)"
    by (rule bfs_expand_measure[OF getPossible_subset])
  also have "\<dots> < bfs_measure es st"
    using 2 by (simp add: bfs_measure_def)
  finally show ?case by simp
qed

declare bfs_loop.simps [simp del]

definition bfs_init :: "Element list \<Rightarrow> bfs_state" where
  "bfs_init basicElements =
     \<lparr>visited = set (map ID basicElements), parent = Map.empty,
      visitedCount = int (length basicElements),
      queue = map ID basicElements, found = False\<rparr>"

text \<open>
  \<open>FindShortestPath\<close> of the breadth-first finder. The elapsed time measured around the
  search is an input of the model.
\<close>

definition BFS_FindShortestPath ::
  "revision \<Rightarrow> ElementStore \<Rightarrow> int \<Rightarrow> string \<Rightarrow> (error + SearchResult) run" where
  "BFS_FindShortestPath rv es elapsed target =
     (if Elements es target = None then Returns (Inl ErrElementNotFound)
      else if GetBasicElements es = [] then Returns (Inl ErrNoBasicElements)
      else
        (let st = bfs_loop rv es target (bfs_init (GetBasicElements es)) in
         if \<not> found st then Returns (Inl ErrNoPathFound)
         else finish es target (parent st) (visitedCount st) elapsed 0))"

section \<open>Depth-bounded engine\<close>

definition mark :: "string \<Rightarrow> Recipe \<Rightarrow> marks \<Rightarrow> marks" where
  "mark current recipe m =
     m\<lparr>visited := insert (Result recipe) (visited m),
       visitedCount := visitedCount m + 1,
       parent := (parent m)(Result recipe \<mapsto> \<lparr>ParentID = current, StepRecipe = recipe\<rparr>)\<rparr>"

definition unmark :: "string \<Rightarrow> marks \<Rightarrow> marks" where
  "unmark resultElem m =
     m\<lparr>visited := visited m - {resultElem}, parent := (parent m)(resultElem := None)\<rparr>"

text \<open>
  The recursive search. \<open>dfsSearchWithTiers\<close> (both revisions) and \<open>dfsVariationSearch\<close>
  are the same function up to the order in which the possible recipes are tried, which is
  the parameter \<open>reorder\<close>. \<open>dfs_try\<close> is the loop over the recipes; the maps and the
  counter, shared through pointers in the source, are threaded through as \<open>marks\<close>.
\<close>

function dfs_search ::
    "revision \<Rightarrow> (Recipe list \<Rightarrow> Recipe list) \<Rightarrow> ElementStore \<Rightarrow> string \<Rightarrow> string \<Rightarrow> marks \<Rightarrow>
     int \<Rightarrow> int \<Rightarrow> int \<Rightarrow> bool \<times> marks"
  and dfs_try ::
    "revision \<Rightarrow> (Recipe list \<Rightarrow> Recipe list) \<Rightarrow> ElementStore \<Rightarrow> string \<Rightarrow> string \<Rightarrow> Recipe list \<Rightarrow>
     marks \<Rightarrow> int \<Rightarrow> int \<Rightarrow> int \<Rightarrow> bool \<times> marks" where
  "dfs_search rv reorder es current target m depth maxDepth targetTier =
     (if current = target then (True, m)
      else if depth \<ge> maxDepth then (False, m)
      else dfs_try rv reorder es current target
             (reorder (getPossibleRecipesThatRespectTiers rv es current
                         (GetElementTier es current) targetTier))
             m depth maxDepth targetTier)"
| "dfs_try rv reorder es current target [] m depth maxDepth targetTier = (False, m)"
| "dfs_try rv reorder es current target (recipe # rest) m depth maxDepth targetTier =
     (if rv = Strict \<and> \<not> allIngredientsLowerTier es recipe then
        dfs_try rv reorder es current target rest m depth maxDepth targetTier
      else if GetElementTier es (Result recipe) \<le> GetElementTier es current then
        dfs_try rv reorder es current target rest m depth maxDepth targetTier
      else if Result recipe \<notin> visited m then
        (case dfs_search rv reorder es (Result recipe) target (mark current recipe m)
                (depth + 1) maxDepth targetTier of
           (True, m') \<Rightarrow> (True, m')
         | (False, m') \<Rightarrow>
             dfs_try rv reorder es current target rest (unmark (Result recipe) m')
               depth maxDepth targetTier)
      else dfs_try rv reorder es current target rest m depth maxDepth targetTier)"
  by pat_completeness auto

termination
  by (relation "measures
        [\<lambda>x. case x of
               Inl (rv, reorder, es, current, target, m, depth, maxDepth, targetTier) \<Rightarrow>
                 2 * nat (maxDepth - depth)
             | Inr (rv, reorder, es, current, target, recipes, m, depth, maxDepth, targetTier) \<Rightarrow>
                 (if maxDepth \<le> depth then 1 else 2 * nat (maxDepth - depth) - 1),
         \<lambda>x. case x of
               Inl _ \<Rightarrow> 0
             | Inr (rv, reorder, es, current, target, recipes, m, depth, maxDepth, targetTier) \<Rightarrow>
                 length recipes]")
     (auto simp: nat_diff_distrib)

declare dfs_search.simps(1) [simp del]

definition dfsSearchWithTiers ::
  "revision \<Rightarrow> ElementStore \<Rightarrow> string \<Rightarrow> string \<Rightarrow> marks \<Rightarrow> int \<Rightarrow> int \<Rightarrow> int \<Rightarrow> bool \<times> marks" where
  "dfsSearchWithTiers rv es current target m depth maxDepth targetTier =
     dfs_search rv (\<lambda>possibleRecipes. possibleRecipes) es current target m depth maxDepth targetTier"

text \<open>The loop of \<open>FindShortestPath\<close> over the basic elements as starting points.\<close>

fun dfs_starts ::
  "revision \<Rightarrow> ElementStore \<Rightarrow> string \<Rightarrow> int \<Rightarrow> int \<Rightarrow> Element list \<Rightarrow> marks \<Rightarrow> bool \<times> marks" where
  "dfs_starts rv es target maxDepth targetTier [] m = (False, m)"
| "dfs_starts rv es target maxDepth targetTier (elem # rest) m =
     (case dfsSearchWithTiers rv es (ID elem) target
             (m\<lparr>visited := insert (ID elem) (visited m), visitedCount := visitedCount m + 1\<rparr>)
             0 maxDepth targetTier of
        (True, m') \<Rightarrow> (True, m')
      | (False, m') \<Rightarrow>
          dfs_starts rv es target maxDepth targetTier rest (m'\<lparr>visited := visited m' - {ID elem}\<rparr>))"

definition no_marks :: marks where
  "no_marks = \<lparr>visited = {}, parent = Map.empty, visitedCount = 0\<rparr>"

definition DFS_FindShortestPath ::
  "revision \<Rightarrow> ElementStore \<Rightarrow> int \<Rightarrow> string \<Rightarrow> (error + SearchResult) run" where
  "DFS_FindShortestPath rv es elapsed target =
     (if Elements es target = None then Returns (Inl ErrElementNotFound)
      else if GetBasicElements es = [] then Returns (Inl ErrNoBasicElements)
      else
        (case dfs_starts rv es target (wrap64 (GetElementTier es target * 2))
                (GetElementTier es target) (GetBasicElements es) no_marks of
           (False, m) \<Rightarrow> Returns (Inl ErrNoPathFound)
         | (True, m) \<Rightarrow> finish es target (parent m) (visitedCount m) elapsed 0))"

subsection \<open>Variant search of the depth-bounded engine\<close>

text \<open>
  \<open>getPathSignature\<close>: the result and the two ingredients of every recipe, the smaller
  ingredient first (strings compare bytewise).
\<close>

fun getPathSignature :: "Recipe list \<Rightarrow> string" where
  "getPathSignature [] = []"
| "getPathSignature (recipe # rest) =
     (Result recipe @ '':'' @
      (case Ingredients recipe of
         a # b # _ \<Rightarrow> (if a > b then b @ ''+'' @ a @ '';'' else a @ ''+'' @ b @ '';'')
       | _ \<Rightarrow> [])) @
     getPathSignature rest"

text \<open>
  The index-derived reordering of \<open>dfsVariationSearch\<close>: position \<open>i\<close> is swapped with
  position \<open>(i + variationIndex) mod n\<close>, for \<open>i\<close> from 0 up. The variation index is a
  loop counter of \<open>FindMultiplePaths\<close>, never negative.
\<close>

definition shuffle :: "nat \<Rightarrow> Recipe list \<Rightarrow> Recipe list" where
  "shuffle variationIndex possibleRecipes =
     (if variationIndex > 0 \<and> length possibleRecipes > 1 then
        foldl (\<lambda>rs i. let swapIndex = (i + variationIndex) mod length rs
                       in if swapIndex \<noteq> i then rs[i := rs ! swapIndex, swapIndex := rs ! i]
                          else rs)
          possibleRecipes [0..<length possibleRecipes]
      else possibleRecipes)"

definition dfsVariationSearch ::
  "ElementStore \<Rightarrow> string \<Rightarrow> string \<Rightarrow> marks \<Rightarrow> int \<Rightarrow> int \<Rightarrow> int \<Rightarrow> nat \<Rightarrow> bool \<times> marks" where
  "dfsVariationSearch es current target m depth maxDepth targetTier variationIndex =
     dfs_search Strict (shuffle variationIndex) es current target m depth maxDepth targetTier"

text \<open>
  The loop of \<open>findPathVariation\<close> over the rotated basic elements. The signature set is
  shared with the other workers and read once per found path; \<open>existingPaths k\<close> is its
  content as read in iteration \<open>k\<close>. A path already known clears both maps, marks the
  start element again and moves on to the next start element.
\<close>

fun variation_starts ::
  "ElementStore \<Rightarrow> string \<Rightarrow> nat \<Rightarrow> int \<Rightarrow> int \<Rightarrow> (nat \<Rightarrow> string set) \<Rightarrow> nat \<Rightarrow> Element list \<Rightarrow>
   marks \<Rightarrow> (bool \<times> marks) option" where
  "variation_starts es target variationIndex maxDepth targetTier existingPaths k [] m =
     Some (False, m)"
| "variation_starts es target variationIndex maxDepth targetTier existingPaths k (elem # rest) m =
     (case dfsVariationSearch es (ID elem) target
             (m\<lparr>visited := insert (ID elem) (visited m), visitedCount := visitedCount m + 1\<rparr>)
             0 maxDepth targetTier variationIndex of
        (True, m') \<Rightarrow>
          (case reconstructPath target (parent m') of
             None \<Rightarrow> None
           | Some path \<Rightarrow>
               if getPathSignature path \<in> existingPaths k then
                 variation_starts es target variationIndex maxDepth targetTier existingPaths
                   (Suc k) rest (m'\<lparr>parent := Map.empty, visited := {ID elem}\<rparr>)
               else Some (True, m'))
      | (False, m') \<Rightarrow>
          variation_starts es target variationIndex maxDepth targetTier existingPaths
            (Suc k) rest (m'\<lparr>visited := visited m' - {ID elem}\<rparr>))"

definition rotate_elements :: "nat \<Rightarrow> Element list \<Rightarrow> Element list" where
  "rotate_elements startElemIndex basicElements =
     (if startElemIndex > 0 \<and> length basicElements > 1 then
        drop startElemIndex basicElements @ take startElemIndex basicElements
      else basicElements)"

definition DFS_findPathVariation ::
  "ElementStore \<Rightarrow> int \<Rightarrow> string \<Rightarrow> nat \<Rightarrow> int \<Rightarrow> (nat \<Rightarrow> string set) \<Rightarrow>
   (error + SearchResult) run" where
  "DFS_findPathVariation es elapsed target variationIndex targetTier existingPaths =
     (if GetBasicElements es = [] then Returns (Inl ErrNoBasicElements)
      else
        (case variation_starts es target variationIndex
                (wrap64 (wrap64 (targetTier * 2) + int (variationIndex mod 5)))
                targetTier existingPaths 0
                (rotate_elements (variationIndex mod length (GetBasicElements es))
                   (GetBasicElements es))
                no_marks of
           None \<Rightarrow> Diverges
         | Some (False, m) \<Rightarrow> Returns (Inl ErrNoPathFound)
         | Some (True, m) \<Rightarrow>
             finish es target (parent m) (visitedCount m) elapsed (int variationIndex)))"

text \<open>
  \<open>findPathWithVariation\<close> of the earlier depth-first revision: the loop of
  \<open>FindShortestPath\<close> over the rotated basic elements, with the perturbed depth ceiling
  and without a look at the paths already found.
\<close>

definition DFS_findPathWithVariation ::
  "ElementStore \<Rightarrow> int \<Rightarrow> string \<Rightarrow> nat \<Rightarrow> (error + SearchResult) run" where
  "DFS_findPathWithVariation es elapsed target variationIndex =
     (if Elements es target = None then Returns (Inl ErrElementNotFound)
      else if GetBasicElements es = [] then Returns (Inl ErrNoBasicElements)
      else
        (case dfs_starts Loose es target
                (wrap64 (wrap64 (GetElementTier es target * 2) + int (variationIndex mod 5)))
                (GetElementTier es target)
                (rotate_elements (variationIndex mod length (GetBasicElements es))
                   (GetBasicElements es))
                no_marks of
           (False, m) \<Rightarrow> Returns (Inl ErrNoPathFound)
         | (True, m) \<Rightarrow>
             finish es target (parent m) (visitedCount m) elapsed (int variationIndex)))"

section \<open>Several paths from the earlier revisions\<close>

text \<open>
  \<open>findPathWithVariation\<close> of the earlier breadth-first revision runs the plain search and
  stamps the result with the index.
\<close>

definition BFS_findPathWithVariation ::
  "ElementStore \<Rightarrow> int \<Rightarrow> string \<Rightarrow> int \<Rightarrow> (error + SearchResult) run" where
  "BFS_findPathWithVariation es elapsed target variationIndex =
     (case BFS_FindShortestPath Loose es elapsed target of
        Returns (Inr result) \<Rightarrow> Returns (Inr (result\<lparr>VariationIndex := variationIndex\<rparr>))
      | other \<Rightarrow> other)"

text \<open>
  The workers append to the shared result list under the mutex; a worker whose search
  ended in an error appends nothing. \<open>collect\<close> folds the workers' outcomes in the order
  in which they finish.
\<close>

fun collect :: "(error + SearchResult) run list \<Rightarrow> SearchResult list \<Rightarrow> SearchResult list run" where
  "collect [] results = Returns results"
| "collect (Returns (Inr result) # rest) results = collect rest (results @ [result])"
| "collect (Returns (Inl err) # rest) results = collect rest results"
| "collect (Panics # rest) results = Panics"
| "collect (Diverges # rest) results = Diverges"

text \<open>
  \<open>FindMultiplePaths\<close> of the earlier breadth-first revision: one worker per index below
  \<open>maxPaths\<close>. The workers share nothing but the result list, so a run is determined by
  the order in which the workers finish (\<open>finishOrder\<close>, a permutation of the indices)
  and by the time each one measures. A negative \<open>maxPaths\<close> is a negative channel
  capacity, which panics.
\<close>

definition BFS_FindMultiplePaths ::
  "ElementStore \<Rightarrow> (nat \<Rightarrow> int) \<Rightarrow> nat list \<Rightarrow> string \<Rightarrow> int \<Rightarrow> (error + SearchResult list) run" where
  "BFS_FindMultiplePaths es elapsed finishOrder target maxPaths =
     (if Elements es target = None then Returns (Inl ErrElementNotFound)
      else if maxPaths < 0 then Panics
      else
        (case collect
                (map (\<lambda>index. BFS_findPathWithVariation es (elapsed index) target (int index))
                   finishOrder) [] of
           Returns results \<Rightarrow>
             if length results = 0 then Returns (Inl ErrNoPathFound) else Returns (Inr results)
         | Panics \<Rightarrow> Panics
         | Diverges \<Rightarrow> Diverges))"

text \<open>\<open>FindMultiplePaths\<close> of the earlier depth-first revision has the same body.\<close>

definition DFS_FindMultiplePaths ::
  "ElementStore \<Rightarrow> (nat \<Rightarrow> int) \<Rightarrow> nat list \<Rightarrow> string \<Rightarrow> int \<Rightarrow> (error + SearchResult list) run" where
  "DFS_FindMultiplePaths es elapsed finishOrder target maxPaths =
     (if Elements es target = None then Returns (Inl ErrElementNotFound)
      else if maxPaths < 0 then Panics
      else
        (case collect
                (map (\<lambda>index. DFS_findPathWithVariation es (elapsed index) target index)
                   finishOrder) [] of
           Returns results \<Rightarrow>
             if length results = 0 then Returns (Inl ErrNoPathFound) else Returns (Inr results)
         | Panics \<Rightarrow> Panics
         | Diverges \<Rightarrow> Diverges))"

section \<open>Bidirectional engine\<close>

record bid_state =
  forwardQueue :: "string list"
  forwardVisited :: "string set"
  forwardParent :: "string \<rightharpoonup> RecipeStep"
  forwardTier :: "string \<rightharpoonup> int"
  backwardQueue :: "string list"
  backwardVisited :: "string set"
  backwardParent :: "string \<rightharpoonup> RecipeStep"
  backwardTier :: "string \<rightharpoonup> int"
  bidVisitedCount :: int
  meetingPoint :: string
  bidFound :: bool

text \<open>Reading an \<open>int\<close> map at a missing key gives 0.\<close>

definition tierAt :: "(string \<rightharpoonup> int) \<Rightarrow> string \<Rightarrow> int" where
  "tierAt tiers name = (case tiers name of None \<Rightarrow> 0 | Some tier \<Rightarrow> tier)"

definition getValidRecipesWithElementAnyPosition :: "ElementStore \<Rightarrow> string \<Rightarrow> Recipe list" where
  "getValidRecipesWithElementAnyPosition es elementID =
     [recipe \<leftarrow> Recipes es. isIngredient elementID recipe \<and> allIngredientsLowerTier es recipe]"

definition forwardPush :: "ElementStore \<Rightarrow> string \<Rightarrow> Recipe \<Rightarrow> bid_state \<Rightarrow> bid_state" where
  "forwardPush es current recipe st =
     st\<lparr>forwardQueue := forwardQueue st @ [Result recipe],
        forwardVisited := insert (Result recipe) (forwardVisited st),
        forwardTier := (forwardTier st)(Result recipe \<mapsto> GetElementTier es (Result recipe)),
        forwardParent := (forwardParent st)(Result recipe \<mapsto> \<lparr>ParentID = current, StepRecipe = recipe\<rparr>),
        bidVisitedCount := bidVisitedCount st + 1\<rparr>"

text \<open>The recipe loop of the forward step.\<close>

fun forward_expand ::
  "ElementStore \<Rightarrow> string \<Rightarrow> int \<Rightarrow> Recipe list \<Rightarrow> bid_state \<Rightarrow> bid_state" where
  "forward_expand es current currentTier [] st = st"
| "forward_expand es current currentTier (recipe # rest) st =
     (if \<not> allIngredientsLowerTier es recipe then forward_expand es current currentTier rest st
      else if GetElementTier es (Result recipe) \<le> currentTier then
        forward_expand es current currentTier rest st
      else if Result recipe \<notin> forwardVisited st then
        (if Result recipe \<in> backwardVisited st then
           (forwardPush es current recipe st)\<lparr>meetingPoint := Result recipe, bidFound := True\<rparr>
         else forward_expand es current currentTier rest (forwardPush es current recipe st))
      else forward_expand es current currentTier rest st)"

text \<open>
  One forward level: \<open>levelSize\<close> elements are taken from the queue unless a meeting point
  stops the loop. The level size is the queue length on entry and the loop only appends,
  so the queue is never empty when an element is taken; the model leaves the state as it
  is in that case.
\<close>

fun forward_level :: "ElementStore \<Rightarrow> nat \<Rightarrow> bid_state \<Rightarrow> bid_state" where
  "forward_level es 0 st = st"
| "forward_level es (Suc n) st =
     (if bidFound st then st
      else
        (case forwardQueue st of
           [] \<Rightarrow> st
         | current # rest \<Rightarrow>
             if current \<in> backwardVisited st then
               st\<lparr>forwardQueue := rest, meetingPoint := current, bidFound := True\<rparr>
             else
               forward_level es n
                 (forward_expand es current (tierAt (forwardTier st) current)
                    (getValidRecipesWithElementAnyPosition es current)
                    (st\<lparr>forwardQueue := rest\<rparr>))))"

definition backwardPush :: "ElementStore \<Rightarrow> string \<Rightarrow> Recipe \<Rightarrow> string \<Rightarrow> bid_state \<Rightarrow> bid_state" where
  "backwardPush es current recipe ingredient st =
     st\<lparr>backwardQueue := backwardQueue st @ [ingredient],
        backwardVisited := insert ingredient (backwardVisited st),
        backwardTier := (backwardTier st)(ingredient \<mapsto> GetElementTier es ingredient),
        backwardParent := (backwardParent st)(ingredient \<mapsto> \<lparr>ParentID = current, StepRecipe = recipe\<rparr>),
        bidVisitedCount := bidVisitedCount st + 1\<rparr>"

text \<open>The ingredient loop of the backward step, for one recipe that makes \<open>current\<close>.\<close>

fun backward_ingredients ::
  "ElementStore \<Rightarrow> string \<Rightarrow> int \<Rightarrow> Recipe \<Rightarrow> string list \<Rightarrow> bid_state \<Rightarrow> bid_state" where
  "backward_ingredients es current currentTier recipe [] st = st"
| "backward_ingredients es current currentTier recipe (ingredient # rest) st =
     (if GetElementTier es ingredient \<ge> currentTier then
        backward_ingredients es current currentTier recipe rest st
      else if ingredient \<notin> backwardVisited st then
        (if ingredient \<in> forwardVisited st then
           (backwardPush es current recipe ingredient st)\<lparr>meetingPoint := ingredient, bidFound := True\<rparr>
         else
           backward_ingredients es current currentTier recipe rest
             (backwardPush es current recipe ingredient st))
      else backward_ingredients es current currentTier recipe rest st)"

text \<open>The loop of the backward step over all recipes of the store.\<close>

fun backward_expand ::
  "ElementStore \<Rightarrow> string \<Rightarrow> int \<Rightarrow> Recipe list \<Rightarrow> bid_state \<Rightarrow> bid_state" where
  "backward_expand es current currentTier [] st = st"
| "backward_expand es current currentTier (recipe # rest) st =
     (if Result recipe = current then
        (if \<not> list_all (\<lambda>ingredient. \<not> GetElementTier es ingredient \<ge> currentTier)
                (Ingredients recipe) then
           backward_expand es current currentTier rest st
         else
           (let st' = backward_ingredients es current currentTier recipe (Ingredients recipe) st
            in if bidFound st' then st' else backward_expand es current currentTier rest st'))
      else backward_expand es current currentTier rest st)"

fun backward_level :: "ElementStore \<Rightarrow> nat \<Rightarrow> bid_state \<Rightarrow> bid_state" where
  "backward_level es 0 st = st"
| "backward_level es (Suc n) st =
     (if bidFound st then st
      else
        (case backwardQueue st of
           [] \<Rightarrow> st
         | current # rest \<Rightarrow>
             if current \<in> forwardVisited st then
               st\<lparr>backwardQueue := rest, meetingPoint := current, bidFound := True\<rparr>
             else
               backward_level es n
                 (backward_expand es current (tierAt (backwardTier st) current) (Recipes es)
                    (st\<lparr>backwardQueue := rest\<rparr>))))"

definition forward_measure :: "ElementStore \<Rightarrow> bid_state \<Rightarrow> nat" where
  "forward_measure es st =
     2 * card (Result ` set (Recipes es) - forwardVisited st) + length (forwardQueue st)"

definition backward_measure :: "ElementStore \<Rightarrow> bid_state \<Rightarrow> nat" where
  "backward_measure es st =
     2 * card (\<Union>(set ` Ingredients ` set (Recipes es)) - backwardVisited st)
       + length (backwardQueue st)"

lemma card_fresh:
  assumes "finite U" "x \<in> U" "x \<notin> V"
  shows "2 * card (U - insert x V) + 2 = 2 * card (U - V)"
proof -
  have eq: "U - insert x V = (U - V) - {x}" by auto
  have mem: "x \<in> U - V" using assms by simp
  have fin: "finite (U - V)" using assms by simp
  have "card (U - V) > 0" using mem fin card_gt_0_iff by blast
  then show ?thesis using mem fin by (simp add: eq)
qed

lemma forward_expand_measure:
  "set rs \<subseteq> set (Recipes es) \<Longrightarrow>
   forward_measure es (forward_expand es current currentTier rs st) \<le> forward_measure es st \<and>
   backward_measure es (forward_expand es current currentTier rs st) = backward_measure es st"
proof (induction rs arbitrary: st)
  case Nil
  then show ?case by simp
next
  case (Cons recipe rest)
  have rest: "set rest \<subseteq> set (Recipes es)" using Cons.prems by simp
  have push: "forward_measure es (forwardPush es current recipe st) + 1 = forward_measure es st"
    if "Result recipe \<notin> forwardVisited st"
    using card_fresh[of "Result ` set (Recipes es)" "Result recipe" "forwardVisited st"] that Cons.prems
    by (simp add: forward_measure_def forwardPush_def)
  have pushb: "backward_measure es (forwardPush es current recipe st) = backward_measure es st"
    by (simp add: backward_measure_def forwardPush_def)
  show ?case
    using Cons.IH[OF rest, of st] Cons.IH[OF rest, of "forwardPush es current recipe st"] push pushb
    by (auto simp: forward_measure_def backward_measure_def)
qed

lemma forward_level_measure:
  "forward_measure es (forward_level es n st) \<le> forward_measure es st \<and>
   backward_measure es (forward_level es n st) = backward_measure es st"
proof (induction n arbitrary: st)
  case 0
  then show ?case by simp
next
  case (Suc n)
  show ?case
  proof (cases "forwardQueue st")
    case Nil
    then show ?thesis by simp
  next
    case (Cons current rest)
    let ?st1 = "st\<lparr>forwardQueue := rest\<rparr>"
    let ?st2 = "forward_expand es current (tierAt (forwardTier st) current)
                    (getValidRecipesWithElementAnyPosition es current) ?st1"
    have sub: "set (getValidRecipesWithElementAnyPosition es current) \<subseteq> set (Recipes es)"
      by (auto simp: getValidRecipesWithElementAnyPosition_def)
    have a: "forward_measure es ?st1 < forward_measure es st"
      "backward_measure es ?st1 = backward_measure es st"
      using Cons by (simp_all add: forward_measure_def backward_measure_def)
    have b: "forward_measure es ?st2 \<le> forward_measure es ?st1"
      "backward_measure es ?st2 = backward_measure es ?st1"
      using forward_expand_measure[OF sub] by blast+
    have c: "forward_measure es (forward_level es n ?st2) \<le> forward_measure es ?st2"
       "backward_measure es (forward_level es n ?st2) = backward_measure es ?st2"
      using Suc.IH by blast+
    show ?thesis
      using Cons a b c by (auto simp: forward_measure_def backward_measure_def)
  qed
qed

lemma forward_level_decreases:
  assumes "forwardQueue st \<noteq> []" "\<not> bidFound st"
  shows "forward_measure es (forward_level es (length (forwardQueue st)) st) < forward_measure es st"
proof -
  obtain current rest where q: "forwardQueue st = current # rest"
    using assms(1) by (cases "forwardQueue st") auto
  let ?st1 = "st\<lparr>forwardQueue := rest\<rparr>"
  let ?st2 = "forward_expand es current (tierAt (forwardTier st) current)
                    (getValidRecipesWithElementAnyPosition es current) ?st1"
  have sub: "set (getValidRecipesWithElementAnyPosition es current) \<subseteq> set (Recipes es)"
    by (auto simp: getValidRecipesWithElementAnyPosition_def)
  have a: "forward_measure es ?st1 < forward_measure es st"
    using q by (simp add: forward_measure_def)
  have b: "forward_measure es ?st2 \<le> forward_measure es ?st1"
    using forward_expand_measure[OF sub] by blast
  have c: "forward_measure es (forward_level es (length rest) ?st2) \<le> forward_measure es ?st2"
    using forward_level_measure by blast
  show ?thesis
    using q assms(2) a b c by (auto simp: forward_measure_def)
qed

lemma backward_ingredients_measure:
  "set ings \<subseteq> \<Union>(set ` Ingredients ` set (Recipes es)) \<Longrightarrow>
   backward_measure es (backward_ingredients es current currentTier recipe ings st)
     \<le> backward_measure es st \<and>
   forward_measure es (backward_ingredients es current currentTier recipe ings st)
     = forward_measure es st"
proof (induction ings arbitrary: st)
  case Nil
  then show ?case by simp
next
  case (Cons ingredient rest)
  have rest: "set rest \<subseteq> \<Union>(set ` Ingredients ` set (Recipes es))" using Cons.prems by simp
  have mem: "ingredient \<in> \<Union>(set ` Ingredients ` set (Recipes es))" using Cons.prems by simp
  have fin: "finite (\<Union>(set ` Ingredients ` set (Recipes es)))" by simp
  have push: "backward_measure es (backwardPush es current recipe ingredient st) + 1
                = backward_measure es st"
    if "ingredient \<notin> backwardVisited st"
    using card_fresh[OF fin mem that]
    by (simp add: backward_measure_def backwardPush_def)
  have pushf: "forward_measure es (backwardPush es current recipe ingredient st)
                 = forward_measure es st"
    by (simp add: forward_measure_def backwardPush_def)
  show ?case
    using Cons.IH[OF rest, of st]
      Cons.IH[OF rest, of "backwardPush es current recipe ingredient st"] push pushf
    by (auto simp: forward_measure_def backward_measure_def)
qed

lemma backward_expand_measure:
  "set rs \<subseteq> set (Recipes es) \<Longrightarrow>
   backward_measure es (backward_expand es current currentTier rs st) \<le> backward_measure es st \<and>
   forward_measure es (backward_expand es current currentTier rs st) = forward_measure es st"
proof (induction rs arbitrary: st)
  case Nil
  then show ?case by simp
next
  case (Cons recipe rest)
  have rest: "set rest \<subseteq> set (Recipes es)" using Cons.prems by simp
  have ings: "set (Ingredients recipe) \<subseteq> \<Union>(set ` Ingredients ` set (Recipes es))"
    using Cons.prems by auto
  let ?st' = "backward_ingredients es current currentTier recipe (Ingredients recipe) st"
  have a: "backward_measure es ?st' \<le> backward_measure es st"
    "forward_measure es ?st' = forward_measure es st"
    using backward_ingredients_measure[OF ings] by blast+
  show ?case
    using Cons.IH[OF rest, of st] Cons.IH[OF rest, of ?st'] a
    by (auto simp: Let_def)
qed

lemma backward_level_measure:
  "backward_measure es (backward_level es n st) \<le> backward_measure es st \<and>
   forward_measure es (backward_level es n st) = forward_measure es st"
proof (induction n arbitrary: st)
  case 0
  then show ?case by simp
next
  case (Suc n)
  show ?case
  proof (cases "backwardQueue st")
    case Nil
    then show ?thesis by simp
  next
    case (Cons current rest)
    let ?st1 = "st\<lparr>backwardQueue := rest\<rparr>"
    let ?st2 = "backward_expand es current (tierAt (backwardTier st) current) (Recipes es) ?st1"
    have a: "backward_measure es ?st1 < backward_measure es st"
      "forward_measure es ?st1 = forward_measure es st"
      using Cons by (simp_all add: forward_measure_def backward_measure_def)
    have b: "backward_measure es ?st2 \<le> backward_measure es ?st1"
      "forward_measure es ?st2 = forward_measure es ?st1"
      using backward_expand_measure[of "Recipes es" es] by blast+
    have c: "backward_measure es (backward_level es n ?st2) \<le> backward_measure es ?st2"
       "forward_measure es (backward_level es n ?st2) = forward_measure es ?st2"
      using Suc.IH by blast+
    show ?thesis
      using Cons a b c by (auto simp: forward_measure_def backward_measure_def)
  qed
qed

text \<open>
  The round loop: one forward level, then, unless the frontiers have met, one backward
  level.
\<close>

function bid_loop :: "ElementStore \<Rightarrow> bid_state \<Rightarrow> bid_state" where
  "bid_loop es st =
     (if forwardQueue st \<noteq> [] \<and> backwardQueue st \<noteq> [] \<and> \<not> bidFound st then
        (let st1 = forward_level es (length (forwardQueue st)) st
         in if bidFound st1 then st1
            else bid_loop es (backward_level es (length (backwardQueue st1)) st1))
      else st)"
  by pat_completeness auto

termination
proof (relation "measure (\<lambda>(es, st). forward_measure es st + backward_measure es st)", goal_cases)
  case 1
  then show ?case by simp
next
  case (2 es st st1)
  have a: "forward_measure es st1 < forward_measure es st"
    "backward_measure es st1 = backward_measure es st"
    using 2 forward_level_decreases[of st es]
      forward_level_measure[of es "length (forwardQueue st)" st]
    by auto
  have b: "backward_measure es (backward_level es (length (backwardQueue st1)) st1)
             \<le> backward_measure es st1"
    "forward_measure es (backward_level es (length (backwardQueue st1)) st1)
       = forward_measure es st1"
    using backward_level_measure by blast+
  show ?case using a b by simp
qed

declare bid_loop.simps [simp del]

text \<open>
  The two walks of the bidirectional engine stop at a name without an entry, and also at
  an entry whose recipe fails the tier check. The forward walk prepends, the backward
  walk appends.
\<close>

partial_function (option) reconstructForwardPath_walk ::
  "ElementStore \<Rightarrow> (string \<rightharpoonup> RecipeStep) \<Rightarrow> string \<Rightarrow> Recipe list \<Rightarrow> Recipe list option" where
  "reconstructForwardPath_walk es parentMap current path =
     (case parentMap current of
        None \<Rightarrow> Some path
      | Some step \<Rightarrow>
          if \<not> allIngredientsLowerTier es (StepRecipe step) then Some path
          else reconstructForwardPath_walk es parentMap (ParentID step) (StepRecipe step # path))"

declare reconstructForwardPath_walk.simps [code]

definition reconstructForwardPath ::
  "ElementStore \<Rightarrow> string \<Rightarrow> (string \<rightharpoonup> RecipeStep) \<Rightarrow> Recipe list option" where
  "reconstructForwardPath es meeting parentMap = reconstructForwardPath_walk es parentMap meeting []"

partial_function (option) reconstructBackwardPath_walk ::
  "ElementStore \<Rightarrow> (string \<rightharpoonup> RecipeStep) \<Rightarrow> string \<Rightarrow> Recipe list \<Rightarrow> Recipe list option" where
  "reconstructBackwardPath_walk es childMap current path =
     (case childMap current of
        None \<Rightarrow> Some path
      | Some step \<Rightarrow>
          if \<not> allIngredientsLowerTier es (StepRecipe step) then Some path
          else reconstructBackwardPath_walk es childMap (ParentID step) (path @ [StepRecipe step]))"

declare reconstructBackwardPath_walk.simps [code]

definition reconstructBackwardPath ::
  "ElementStore \<Rightarrow> string \<Rightarrow> (string \<rightharpoonup> RecipeStep) \<Rightarrow> Recipe list option" where
  "reconstructBackwardPath es meeting childMap = reconstructBackwardPath_walk es childMap meeting []"

definition bid_init :: "ElementStore \<Rightarrow> Element list \<Rightarrow> string \<Rightarrow> bid_state" where
  "bid_init es basicElements target =
     \<lparr>forwardQueue = map ID basicElements,
      forwardVisited = set (map ID basicElements),
      forwardParent = Map.empty,
      forwardTier = (\<lambda>name. if name \<in> set (map ID basicElements) then Some 0 else None),
      backwardQueue = [target],
      backwardVisited = {target},
      backwardParent = Map.empty,
      backwardTier = [target \<mapsto> GetElementTier es target],
      bidVisitedCount = int (length basicElements) + 1,
      meetingPoint = [],
      bidFound = False\<rparr>"

definition Bid_FindShortestPath ::
  "ElementStore \<Rightarrow> int \<Rightarrow> string \<Rightarrow> (error + SearchResult) run" where
  "Bid_FindShortestPath es elapsed target =
     (if Elements es target = None then Returns (Inl ErrElementNotFound)
      else if GetBasicElements es = [] then Returns (Inl ErrNoBasicElements)
      else
        (let st = bid_loop es (bid_init es (GetBasicElements es) target) in
         if \<not> bidFound st then Returns (Inl ErrNoPathFound)
         else
           (case reconstructForwardPath es (meetingPoint st) (forwardParent st) of
              None \<Rightarrow> Diverges
            | Some forwardPath \<Rightarrow>
                (case reconstructBackwardPath es (meetingPoint st) (backwardParent st) of
                   None \<Rightarrow> Diverges
                 | Some backwardPath \<Rightarrow>
                     assemble es target (forwardPath @ backwardPath)
                       (bidVisitedCount st) elapsed 0))))"

section \<open>The search of the older package\<close>

text \<open>
  The package \<open>algorithm\<close> of the earlier server holds a breadth-first search of its own,
  \<open>bfs\<close>, over the element map of package \<open>model\<close> (names to elements with their
  recipes). It keeps whole paths of names in the queue and has no tiers.
\<close>

record model_Element =
  model_Name :: string
  model_Recipes :: "string list list"

record PathNode =
  Name :: string
  NodePath :: "string list"

record walk_state =
  bfsQueue :: "PathNode list"
  bfsVisited :: "string set"

text \<open>
  \<open>containsAll\<close> counts the names it holds and takes one off for every name needed; a
  name missing from the count map reads as 0.
\<close>

fun containsAll_need :: "(string \<Rightarrow> int) \<Rightarrow> string list \<Rightarrow> bool" where
  "containsAll_need count [] = True"
| "containsAll_need count (n # rest) =
     (if count n = 0 then False else containsAll_need (count(n := count n - 1)) rest)"

definition containsAll :: "string list \<Rightarrow> string list \<Rightarrow> bool" where
  "containsAll held need =
     containsAll_need (foldl (\<lambda>count h. count(h := count h + 1)) (\<lambda>h. 0) held) need"

text \<open>
  The body of the search is a \<open>range\<close> over the element map. Go leaves the order in
  which a \<open>range\<close> yields the keys of a map open, and it may differ from one \<open>range\<close> to
  the next; \<open>keyOrder k\<close> is the order of the keys in the \<open>k\<close>-th \<open>range\<close> of a call, an
  input of the model. The map is given by its entries, \<open>bfs_recipes\<close> is the loop over the
  recipes of one entry, \<open>bfs_range\<close> the loop over the entries.
\<close>

definition visit :: "PathNode \<Rightarrow> string \<Rightarrow> walk_state \<Rightarrow> walk_state" where
  "visit node name st =
     st\<lparr>bfsVisited := insert name (bfsVisited st),
        bfsQueue := bfsQueue st @ [\<lparr>Name = name, NodePath = NodePath node @ [name]\<rparr>]\<rparr>"

fun bfs_recipes :: "PathNode \<Rightarrow> string \<Rightarrow> string list list \<Rightarrow> walk_state \<Rightarrow> walk_state" where
  "bfs_recipes node name [] st = st"
| "bfs_recipes node name (recipe # rest) st =
     (if containsAll (NodePath node) recipe \<and> name \<notin> bfsVisited st then
        bfs_recipes node name rest (visit node name st)
      else bfs_recipes node name rest st)"

fun bfs_range ::
  "(string \<times> model_Element) list \<Rightarrow> PathNode \<Rightarrow> string list \<Rightarrow> walk_state \<Rightarrow> walk_state" where
  "bfs_range elements node [] st = st"
| "bfs_range elements node (name # rest) st =
     (case map_of elements name of
        None \<Rightarrow> bfs_range elements node rest st
      | Some el \<Rightarrow> bfs_range elements node rest (bfs_recipes node name (model_Recipes el) st))"

definition walk_measure :: "(string \<times> model_Element) list \<Rightarrow> walk_state \<Rightarrow> nat" where
  "walk_measure elements st =
     2 * card (fst ` set elements - bfsVisited st) + length (bfsQueue st)"

lemma bfs_recipes_measure:
  "name \<in> fst ` set elements \<Longrightarrow>
   walk_measure elements (bfs_recipes node name recipes st) \<le> walk_measure elements st"
proof (induction recipes arbitrary: st)
  case Nil
  then show ?case by simp
next
  case (Cons recipe rest)
  have fresh: "walk_measure elements (visit node name st) \<le> walk_measure elements st"
    if "name \<notin> bfsVisited st"
    using card_fresh[of "fst ` set elements" name "bfsVisited st"] that Cons.prems
    by (simp add: walk_measure_def visit_def)
  show ?case
    using Cons.IH[OF Cons.prems, of st] Cons.IH[OF Cons.prems, of "visit node name st"] fresh
    by auto
qed

lemma bfs_range_measure:
  "walk_measure elements (bfs_range elements node names st) \<le> walk_measure elements st"
proof (induction names arbitrary: st)
  case Nil
  then show ?case by simp
next
  case (Cons name rest)
  show ?case
  proof (cases "map_of elements name")
    case None
    then show ?thesis using Cons.IH[of st] by simp
  next
    case (Some el)
    then have "(name, el) \<in> set elements" by (rule map_of_SomeD)
    then have "name \<in> fst ` set elements" by force
    from bfs_recipes_measure[OF this, of node "model_Recipes el" st]
      Cons.IH[of "bfs_recipes node name (model_Recipes el) st"] Some
    show ?thesis by simp
  qed
qed

text \<open>The queue loop of \<open>bfs\<close>; \<open>None\<close> is the \<open>nil\<close> it returns when the queue runs empty.\<close>

function algorithm_bfs_loop ::
  "(nat \<Rightarrow> string list) \<Rightarrow> string \<Rightarrow> (string \<times> model_Element) list \<Rightarrow> nat \<Rightarrow> walk_state \<Rightarrow>
   string list option" where
  "algorithm_bfs_loop keyOrder target elements k st =
     (case bfsQueue st of
        [] \<Rightarrow> None
      | node # rest \<Rightarrow>
          if Name node = target then Some (NodePath node)
          else algorithm_bfs_loop keyOrder target elements (Suc k)
                 (bfs_range elements node (keyOrder k) (st\<lparr>bfsQueue := rest\<rparr>)))"
  by pat_completeness auto
termination
proof (relation "measure (\<lambda>(keyOrder, target, elements, k, st). walk_measure elements st)", goal_cases)
  case 1
  then show ?case by simp
next
  case (2 keyOrder target elements k st node rest)
  have "walk_measure elements (bfs_range elements node (keyOrder k) (st\<lparr>bfsQueue := rest\<rparr>))
          \<le> walk_measure elements (st\<lparr>bfsQueue := rest\<rparr>)"
    by (rule bfs_range_measure)
  also have "\<dots> < walk_measure elements st"
    using 2 by (simp add: walk_measure_def)
  finally show ?case by simp
qed

declare algorithm_bfs_loop.simps [simp del]

definition base :: "string list" where
  "base = [''air'', ''earth'', ''fire'', ''water'']"

definition algorithm_bfs ::
  "(nat \<Rightarrow> string list) \<Rightarrow> string \<Rightarrow> (string \<times> model_Element) list \<Rightarrow> string list option" where
  "algorithm_bfs keyOrder target elements =
     algorithm_bfs_loop keyOrder target elements 0
       \<lparr>bfsQueue = map (\<lambda>b. \<lparr>Name = b, NodePath = [b]\<rparr>) base, bfsVisited = set base\<rparr>"

section \<open>Vocabulary of the properties\<close>

text \<open>
  The predicates in which the properties of the engines are stated and proved, and the
  catalogs on which the engines are evaluated.
\<close>

subsection \<open>Outcomes of a search\<close>

text \<open>The path of a returned result and the signatures of a returned result list.\<close>

definition returned_path :: "(error + SearchResult) run \<Rightarrow> Recipe list option" where
  "returned_path out = (case out of Returns (Inr r) \<Rightarrow> Some (Path r) | _ \<Rightarrow> None)"

definition returned_signatures :: "(error + SearchResult list) run \<Rightarrow> string list option" where
  "returned_signatures out =
     (case out of Returns (Inr results) \<Rightarrow> Some (map (\<lambda>r. getPathSignature (Path r)) results)
      | _ \<Rightarrow> None)"

subsection \<open>Chains, invariants and levels\<close>

text \<open>
  \<open>tier_chain es start pm\<close>: every entry of the parent map \<open>pm\<close> points to a parent of
  strictly lower tier, not below the tier of \<open>start\<close>, that is \<open>start\<close> or has an entry
  itself; \<open>start\<close> has none. \<open>parents_lower_tier\<close> is the first of these conditions alone.
\<close>

definition tier_chain :: "ElementStore \<Rightarrow> string \<Rightarrow> (string \<rightharpoonup> RecipeStep) \<Rightarrow> bool" where
  "tier_chain es start pm \<longleftrightarrow>
     start \<notin> dom pm \<and>
     (\<forall>x s. pm x = Some s \<longrightarrow>
        GetElementTier es (ParentID s) < GetElementTier es x \<and>
        GetElementTier es start \<le> GetElementTier es (ParentID s) \<and>
        (ParentID s = start \<or> ParentID s \<in> dom pm))"

definition parents_lower_tier :: "ElementStore \<Rightarrow> (string \<rightharpoonup> RecipeStep) \<Rightarrow> bool" where
  "parents_lower_tier es pm \<longleftrightarrow>
     (\<forall>x s. pm x = Some s \<longrightarrow> GetElementTier es (ParentID s) < GetElementTier es x)"

text \<open>
  \<open>recipe_chain a p b\<close>: the recipe list \<open>p\<close> leads from \<open>a\<close> to \<open>b\<close>; the first recipe takes
  \<open>a\<close> as an ingredient, every later recipe takes the result of the one before, and the
  last result is \<open>b\<close> (for the empty list, \<open>a\<close> is \<open>b\<close>).
\<close>

fun recipe_chain :: "string \<Rightarrow> Recipe list \<Rightarrow> string \<Rightarrow> bool" where
  "recipe_chain a [] b \<longleftrightarrow> a = b"
| "recipe_chain a (r # rs) b \<longleftrightarrow> a \<in> set (Ingredients r) \<and> recipe_chain (Result r) rs b"

text \<open>The two halves of the state of the bidirectional loop.\<close>

definition forward_part ::
  "bid_state \<Rightarrow> string list \<times> string set \<times> (string \<rightharpoonup> RecipeStep) \<times> (string \<rightharpoonup> int)" where
  "forward_part st = (forwardQueue st, forwardVisited st, forwardParent st, forwardTier st)"

definition backward_part ::
  "bid_state \<Rightarrow> string list \<times> string set \<times> (string \<rightharpoonup> RecipeStep) \<times> (string \<rightharpoonup> int)" where
  "backward_part st = (backwardQueue st, backwardVisited st, backwardParent st, backwardTier st)"

text \<open>
  What the forward half of the state keeps: the seeds are visited and have no parent
  entry, queued names are visited, every other visited name has a parent entry, and an
  entry for \<open>x\<close> holds a tier-valid recipe that makes \<open>x\<close> from its visited parent.
\<close>

definition forward_inv :: "ElementStore \<Rightarrow> string set \<Rightarrow> bid_state \<Rightarrow> bool" where
  "forward_inv es seeds st \<longleftrightarrow>
     seeds \<subseteq> forwardVisited st \<and>
     seeds \<inter> dom (forwardParent st) = {} \<and>
     set (forwardQueue st) \<subseteq> forwardVisited st \<and>
     forwardVisited st \<subseteq> seeds \<union> dom (forwardParent st) \<and>
     finite (dom (forwardParent st)) \<and>
     (\<forall>x s. forwardParent st x = Some s \<longrightarrow>
        Result (StepRecipe s) = x \<and> ParentID s \<in> set (Ingredients (StepRecipe s)) \<and>
        allIngredientsLowerTier es (StepRecipe s) \<and> ParentID s \<in> forwardVisited st)"

definition meet_inv :: "bid_state \<Rightarrow> bool" where
  "meet_inv st \<longleftrightarrow>
     (bidFound st \<longrightarrow> meetingPoint st \<in> forwardVisited st \<and> meetingPoint st \<in> backwardVisited st)"

text \<open>
  The backward half: the target is visited and has no entry, every other visited name
  has one, the recorded tier of a visited name is its catalog tier, and an entry for \<open>x\<close>
  holds a tier-valid recipe that takes \<open>x\<close> and makes its visited parent.
\<close>

definition backward_inv :: "ElementStore \<Rightarrow> string \<Rightarrow> bid_state \<Rightarrow> bool" where
  "backward_inv es target st \<longleftrightarrow>
     target \<in> backwardVisited st \<and>
     target \<notin> dom (backwardParent st) \<and>
     set (backwardQueue st) \<subseteq> backwardVisited st \<and>
     backwardVisited st \<subseteq> insert target (dom (backwardParent st)) \<and>
     (\<forall>x \<in> backwardVisited st.
        backwardTier st x = Some (GetElementTier es x) \<and>
        GetElementTier es x \<le> GetElementTier es target) \<and>
     (\<forall>x s. backwardParent st x = Some s \<longrightarrow>
        x \<in> set (Ingredients (StepRecipe s)) \<and> Result (StepRecipe s) = ParentID s \<and>
        allIngredientsLowerTier es (StepRecipe s) \<and> ParentID s \<in> backwardVisited st \<and>
        GetElementTier es x < GetElementTier es (ParentID s))"

text \<open>
  The recipes the queue loop takes when it expands \<open>u\<close>: the possible recipes of \<open>u\<close> that
  pass the checks of the loop body (\<open>bfs_edge\<close>).
\<close>

definition bfs_candidates :: "revision \<Rightarrow> ElementStore \<Rightarrow> string \<Rightarrow> string \<Rightarrow> Recipe list" where
  "bfs_candidates rv es target u =
     getPossibleRecipesThatRespectTiers rv es u (GetElementTier es u) (GetElementTier es target)"

definition bfs_edge :: "revision \<Rightarrow> ElementStore \<Rightarrow> string \<Rightarrow> string \<Rightarrow> Recipe \<Rightarrow> bool" where
  "bfs_edge rv es target u r \<longleftrightarrow>
     r \<in> set (bfs_candidates rv es target u) \<and>
     \<not> (rv = Strict \<and> \<not> allIngredientsLowerTier es r) \<and>
     \<not> GetElementTier es (Result r) \<le> GetElementTier es u"

text \<open>
  The invariants of the queue loop, with a level for every visited name (\<open>lev\<close>, its
  depth in the parent tree). \<open>tree_ok\<close>: the parent map is a tree over the visited names,
  rooted in the seeds, whose entries are edges and whose levels grow by one. \<open>expanded\<close>:
  every edge out of a name leads to a visited name at most one level deeper. \<open>settled\<close>:
  what is known once the target is found. \<open>inner_inv\<close> holds inside the recipe loop for
  the expanded name \<open>u0\<close>, \<open>outer_inv\<close> between two rounds of the queue loop, and
  \<open>inner_post\<close> relates the states before and after the recipe loop.
\<close>

definition tree_ok ::
  "revision \<Rightarrow> ElementStore \<Rightarrow> string \<Rightarrow> string set \<Rightarrow> (string \<Rightarrow> nat) \<Rightarrow> bfs_state \<Rightarrow> bool" where
  "tree_ok rv es target seeds lev st \<longleftrightarrow>
     seeds \<subseteq> visited st \<and>
     (\<forall>x \<in> seeds. lev x = 0 \<and> parent st x = None) \<and>
     visited st \<subseteq> seeds \<union> dom (parent st) \<and>
     (\<forall>x s. parent st x = Some s \<longrightarrow>
        ParentID s \<in> visited st \<and> x \<in> visited st \<and> lev x = Suc (lev (ParentID s)) \<and>
        Result (StepRecipe s) = x \<and> bfs_edge rv es target (ParentID s) (StepRecipe s))"

definition expanded ::
  "revision \<Rightarrow> ElementStore \<Rightarrow> string \<Rightarrow> (string \<Rightarrow> nat) \<Rightarrow> bfs_state \<Rightarrow> string \<Rightarrow> bool" where
  "expanded rv es target lev st u \<longleftrightarrow>
     (\<forall>r. bfs_edge rv es target u r \<longrightarrow>
        Result r \<in> visited st \<and> lev (Result r) \<le> Suc (lev u))"

definition settled ::
  "revision \<Rightarrow> ElementStore \<Rightarrow> string \<Rightarrow> (string \<Rightarrow> nat) \<Rightarrow> bfs_state \<Rightarrow> bool" where
  "settled rv es target lev st \<longleftrightarrow>
     target \<in> visited st \<and>
     (\<forall>u \<in> visited st. Suc (lev u) < lev target \<longrightarrow> expanded rv es target lev st u)"

definition inner_inv ::
  "revision \<Rightarrow> ElementStore \<Rightarrow> string \<Rightarrow> string set \<Rightarrow> (string \<Rightarrow> nat) \<Rightarrow> string \<Rightarrow> bfs_state \<Rightarrow> bool" where
  "inner_inv rv es target seeds lev u0 st \<longleftrightarrow>
     tree_ok rv es target seeds lev st \<and> \<not> found st \<and> u0 \<in> visited st \<and>
     set (queue st) \<subseteq> visited st \<and> sorted (map lev (queue st)) \<and>
     (\<forall>x \<in> set (queue st). lev u0 \<le> lev x \<and> lev x \<le> Suc (lev u0)) \<and>
     (\<forall>u \<in> visited st. u \<notin> set (queue st) \<longrightarrow> u \<noteq> u0 \<longrightarrow>
        expanded rv es target lev st u \<and> lev u \<le> lev u0) \<and>
     (target \<in> visited st \<longrightarrow> target \<in> set (queue st))"

definition outer_inv ::
  "revision \<Rightarrow> ElementStore \<Rightarrow> string \<Rightarrow> string set \<Rightarrow> (string \<Rightarrow> nat) \<Rightarrow> bfs_state \<Rightarrow> bool" where
  "outer_inv rv es target seeds lev st \<longleftrightarrow>
     tree_ok rv es target seeds lev st \<and>
     (if found st then settled rv es target lev st
      else
        set (queue st) \<subseteq> visited st \<and> sorted (map lev (queue st)) \<and>
        (\<forall>x \<in> set (queue st). \<forall>y \<in> set (queue st). lev y \<le> Suc (lev x)) \<and>
        (\<forall>u \<in> visited st. u \<notin> set (queue st) \<longrightarrow>
           expanded rv es target lev st u \<and> (\<forall>x \<in> set (queue st). lev u \<le> lev x)) \<and>
        (target \<in> visited st \<longrightarrow> target \<in> set (queue st)))"

definition inner_post ::
  "revision \<Rightarrow> ElementStore \<Rightarrow> string \<Rightarrow> string set \<Rightarrow> string \<Rightarrow> Recipe list \<Rightarrow>
   (string \<Rightarrow> nat) \<Rightarrow> bfs_state \<Rightarrow> (string \<Rightarrow> nat) \<Rightarrow> bfs_state \<Rightarrow> bool" where
  "inner_post rv es target seeds u0 rs lev st lev' st' \<longleftrightarrow>
     (\<forall>x \<in> visited st. lev' x = lev x) \<and> visited st \<subseteq> visited st' \<and>
     tree_ok rv es target seeds lev' st' \<and>
     (if found st' then settled rv es target lev' st'
      else inner_inv rv es target seeds lev' u0 st' \<and>
           (\<forall>r \<in> set rs. bfs_edge rv es target u0 r \<longrightarrow>
              Result r \<in> visited st' \<and> lev' (Result r) \<le> Suc (lev' u0)))"

text \<open>A path all of whose recipes are taken by the queue loop.\<close>

fun edge_chain ::
  "revision \<Rightarrow> ElementStore \<Rightarrow> string \<Rightarrow> string \<Rightarrow> Recipe list \<Rightarrow> string \<Rightarrow> bool" where
  "edge_chain rv es target a [] b \<longleftrightarrow> a = b"
| "edge_chain rv es target a (r # rs) b \<longleftrightarrow>
     bfs_edge rv es target a r \<and> edge_chain rv es target (Result r) rs b"

text \<open>
  A tier-valid path from \<open>a\<close> to \<open>b\<close>: recipes of the catalog, each with all ingredients
  below its result tier, the first taking \<open>a\<close>, each later one the result before.
\<close>

fun valid_chain :: "ElementStore \<Rightarrow> string \<Rightarrow> Recipe list \<Rightarrow> string \<Rightarrow> bool" where
  "valid_chain es a [] b \<longleftrightarrow> a = b"
| "valid_chain es a (r # rs) b \<longleftrightarrow>
     r \<in> set (Recipes es) \<and> a \<in> set (Ingredients r) \<and> allIngredientsLowerTier es r \<and>
     valid_chain es (Result r) rs b"

subsection \<open>Example catalogs\<close>

text \<open>
  \<open>demo_catalog\<close>: two basic elements, \<open>C\<close> made from them and \<open>D\<close> made from \<open>A\<close> and \<open>C\<close>.
  \<open>tier_violating_catalog\<close>: one recipe with an ingredient above its result.
  \<open>dangling_catalog\<close>: one recipe with an ingredient that is no element.
  \<open>ladder_catalog\<close>: a chain of four recipes.
  \<open>below_zero_catalog\<close>: the name \<open>A\<close> is listed in tier 0, which makes it basic, and
  again in tier -3, which is the tier the store keeps for it; \<open>long_way\<close> is the path from
  \<open>A\<close> to \<open>T\<close>, and \<open>found_before\<close> the signature set after the path \<open>B + B \<rightarrow> T\<close> was found.
  \<open>huge_tier_catalog\<close>: a target whose doubled tier is out of range.
  \<open>shortcut_catalog\<close>: a tier-valid path of two recipes to \<open>T\<close> and a single recipe to \<open>T\<close>
  with an ingredient above it.
  \<open>fork_elements\<close>: an element map of the older package in which \<open>T\<close> is made from \<open>X\<close> or
  from \<open>Y\<close>, with the two key orders \<open>x_first\<close> and \<open>y_first\<close>.
\<close>

definition element :: "string \<Rightarrow> Element" where
  "element name = \<lparr>ID = name, ElementRecipes = [], ImageURL = []\<rparr>"

definition demo_catalog :: ElementStore where
  "demo_catalog =
     \<lparr>Elements = [''A'' \<mapsto> element ''A'', ''B'' \<mapsto> element ''B'',
                  ''C'' \<mapsto> element ''C'', ''D'' \<mapsto> element ''D''],
      Recipes = [\<lparr>Ingredients = [''A'', ''B''], Result = ''C''\<rparr>,
                 \<lparr>Ingredients = [''A'', ''C''], Result = ''D''\<rparr>],
      BasicElements = [''A'', ''B''],
      TierMap = [''A'' \<mapsto> 0, ''B'' \<mapsto> 0, ''C'' \<mapsto> 1, ''D'' \<mapsto> 2]\<rparr>"

definition start_marks :: "string \<Rightarrow> marks" where
  "start_marks name = \<lparr>visited = {name}, parent = Map.empty, visitedCount = 1\<rparr>"

definition tier_violating_catalog :: ElementStore where
  "tier_violating_catalog =
     \<lparr>Elements = [''A'' \<mapsto> element ''A'', ''Z'' \<mapsto> element ''Z'', ''C'' \<mapsto> element ''C''],
      Recipes = [\<lparr>Ingredients = [''A'', ''Z''], Result = ''C''\<rparr>],
      BasicElements = [''A''],
      TierMap = [''A'' \<mapsto> 0, ''Z'' \<mapsto> 2, ''C'' \<mapsto> 1]\<rparr>"

definition dangling_catalog :: ElementStore where
  "dangling_catalog =
     \<lparr>Elements = [''A'' \<mapsto> element ''A'', ''C'' \<mapsto> element ''C''],
      Recipes = [\<lparr>Ingredients = [''A'', ''Q''], Result = ''C''\<rparr>],
      BasicElements = [''A''],
      TierMap = [''A'' \<mapsto> 0, ''C'' \<mapsto> 1]\<rparr>"

definition ladder_catalog :: ElementStore where
  "ladder_catalog =
     \<lparr>Elements = [''A'' \<mapsto> element ''A'', ''B'' \<mapsto> element ''B'', ''C'' \<mapsto> element ''C'',
                  ''D'' \<mapsto> element ''D'', ''E'' \<mapsto> element ''E''],
      Recipes = [\<lparr>Ingredients = [''A'', ''A''], Result = ''B''\<rparr>,
                 \<lparr>Ingredients = [''B'', ''B''], Result = ''C''\<rparr>,
                 \<lparr>Ingredients = [''C'', ''C''], Result = ''D''\<rparr>,
                 \<lparr>Ingredients = [''D'', ''D''], Result = ''E''\<rparr>],
      BasicElements = [''A''],
      TierMap = [''A'' \<mapsto> 0, ''B'' \<mapsto> 1, ''C'' \<mapsto> 2, ''D'' \<mapsto> 3, ''E'' \<mapsto> 4]\<rparr>"

definition below_zero_catalog :: ElementStore where
  "below_zero_catalog =
     \<lparr>Elements = [''A'' \<mapsto> element ''A'', ''B'' \<mapsto> element ''B'', ''X'' \<mapsto> element ''X'',
                  ''Y'' \<mapsto> element ''Y'', ''T'' \<mapsto> element ''T''],
      Recipes = [\<lparr>Ingredients = [''A'', ''A''], Result = ''X''\<rparr>,
                 \<lparr>Ingredients = [''X'', ''X''], Result = ''Y''\<rparr>,
                 \<lparr>Ingredients = [''Y'', ''Y''], Result = ''T''\<rparr>,
                 \<lparr>Ingredients = [''B'', ''B''], Result = ''T''\<rparr>],
      BasicElements = [''A'', ''B''],
      TierMap = [''A'' \<mapsto> -3, ''B'' \<mapsto> 0, ''X'' \<mapsto> -2, ''Y'' \<mapsto> -1, ''T'' \<mapsto> 1]\<rparr>"

definition long_way :: "Recipe list" where
  "long_way =
     [\<lparr>Ingredients = [''A'', ''A''], Result = ''X''\<rparr>,
      \<lparr>Ingredients = [''X'', ''X''], Result = ''Y''\<rparr>,
      \<lparr>Ingredients = [''Y'', ''Y''], Result = ''T''\<rparr>]"

definition found_before :: "nat \<Rightarrow> string set" where
  "found_before k = {''T:B+B;''}"

definition huge_tier_catalog :: ElementStore where
  "huge_tier_catalog =
     \<lparr>Elements = [''A'' \<mapsto> element ''A'', ''T'' \<mapsto> element ''T''],
      Recipes = [\<lparr>Ingredients = [''A'', ''A''], Result = ''T''\<rparr>],
      BasicElements = [''A''],
      TierMap = [''A'' \<mapsto> 0, ''T'' \<mapsto> 2 ^ 62]\<rparr>"

definition shortcut_catalog :: ElementStore where
  "shortcut_catalog =
     \<lparr>Elements = [''A'' \<mapsto> element ''A'', ''C'' \<mapsto> element ''C'', ''T'' \<mapsto> element ''T'',
                  ''Y'' \<mapsto> element ''Y''],
      Recipes = [\<lparr>Ingredients = [''A'', ''A''], Result = ''C''\<rparr>,
                 \<lparr>Ingredients = [''C'', ''C''], Result = ''T''\<rparr>,
                 \<lparr>Ingredients = [''A'', ''Y''], Result = ''T''\<rparr>],
      BasicElements = [''A''],
      TierMap = [''A'' \<mapsto> 0, ''C'' \<mapsto> 1, ''T'' \<mapsto> 2, ''Y'' \<mapsto> 5]\<rparr>"

definition fork_elements :: "(string \<times> model_Element) list" where
  "fork_elements =
     [(''X'', \<lparr>model_Name = ''X'', model_Recipes = [[''air'']]\<rparr>),
      (''Y'', \<lparr>model_Name = ''Y'', model_Recipes = [[''air'']]\<rparr>),
      (''T'', \<lparr>model_Name = ''T'', model_Recipes = [[''air'', ''X''], [''air'', ''Y'']]\<rparr>)]"

definition x_first :: "nat \<Rightarrow> string list" where
  "x_first k = [''X'', ''Y'', ''T'']"

definition y_first :: "nat \<Rightarrow> string list" where
  "y_first k = [''Y'', ''X'', ''T'']"

section \<open>Properties of the depth-bounded engine\<close>

lemma dfs_restore:
  "dom (parent m) \<subseteq> visited m \<Longrightarrow>
   dfs_search rv reorder es current target m depth maxDepth targetTier = (False, m') \<Longrightarrow>
   visited m' = visited m \<and> parent m' = parent m"
  "dom (parent m) \<subseteq> visited m \<Longrightarrow>
   dfs_try rv reorder es current target recipes m depth maxDepth targetTier = (False, m') \<Longrightarrow>
   visited m' = visited m \<and> parent m' = parent m"
proof (induction rv reorder es current target m depth maxDepth targetTier
         and rv reorder es current target recipes m depth maxDepth targetTier
       arbitrary: m' and m' rule: dfs_search_dfs_try.induct)
  case (1 rv reorder es current target m depth maxDepth targetTier)
  then show ?case by (auto simp: dfs_search.simps(1) split: if_splits)
next
  case (2 rv reorder es current target m depth maxDepth targetTier)
  then show ?case by simp
next
  case (3 rv reorder es current target recipe rest m depth maxDepth targetTier)
  let ?skip1 = "rv = Strict \<and> \<not> allIngredientsLowerTier es recipe"
  let ?skip2 = "GetElementTier es (Result recipe) \<le> GetElementTier es current"
  consider (a) "?skip1" | (b) "\<not> ?skip1" "?skip2"
    | (c) "\<not> ?skip1" "\<not> ?skip2" "Result recipe \<in> visited m"
    | (d) "\<not> ?skip1" "\<not> ?skip2" "Result recipe \<notin> visited m" by blast
  then show ?case
  proof cases
    case a
    then have "dfs_try rv reorder es current target rest m depth maxDepth targetTier = (False, m')"
      using "3.prems"(2) by (auto split: if_splits)
    from "3.IH"(1)[OF a "3.prems"(1) this] show ?thesis .
  next
    case b
    then have "dfs_try rv reorder es current target rest m depth maxDepth targetTier = (False, m')"
      using "3.prems"(2) by (auto split: if_splits)
    from "3.IH"(2)[OF b "3.prems"(1) this] show ?thesis .
  next
    case c
    then have "dfs_try rv reorder es current target rest m depth maxDepth targetTier = (False, m')"
      using "3.prems"(2) by (auto split: if_splits)
    from "3.IH"(5)[OF c(1,2) _ "3.prems"(1) this] c(3) show ?thesis by simp
  next
    case d
    obtain b m1 where r: "dfs_search rv reorder es (Result recipe) target (mark current recipe m)
                (depth + 1) maxDepth targetTier = (b, m1)" by fastforce
    have pre1: "dom (parent (mark current recipe m)) \<subseteq> visited (mark current recipe m)"
      using "3.prems"(1) by (auto simp: mark_def)
    show ?thesis
    proof (cases b)
      case True
      then show ?thesis using d r "3.prems"(2) by (auto split: if_splits)
    next
      case False
      have eq1: "visited m1 = visited (mark current recipe m) \<and> parent m1 = parent (mark current recipe m)"
        using "3.IH"(3)[OF d pre1] r False by simp
      have fresh: "Result recipe \<notin> visited m" "parent m (Result recipe) = None"
        using d "3.prems"(1) by auto
      have un: "visited (unmark (Result recipe) m1) = visited m" "parent (unmark (Result recipe) m1) = parent m"
        using eq1 fresh by (auto simp: unmark_def mark_def)
      have pre2: "dom (parent (unmark (Result recipe) m1)) \<subseteq> visited (unmark (Result recipe) m1)"
        using un "3.prems"(1) by simp
      have t: "dfs_try rv reorder es current target rest (unmark (Result recipe) m1) depth maxDepth targetTier = (False, m')"
        using "3.prems"(2) d r False by (auto split: if_splits)
      have bF: "b = False" using False by simp
      from "3.IH"(4)[OF d r[symmetric] bF pre2 t] un
      show ?thesis by simp
    qed
  qed
qed

lemma tier_chain_mark:
  assumes tc: "tier_chain es start (parent m)"
    and sv: "start \<in> visited m" and dv: "dom (parent m) \<subseteq> visited m"
    and cur: "current = start \<or> current \<in> dom (parent m)"
    and up: "GetElementTier es current < GetElementTier es (Result recipe)"
    and fresh: "Result recipe \<notin> visited m"
  shows "tier_chain es start (parent (mark current recipe m))"
proof -
  have lo: "GetElementTier es start \<le> GetElementTier es current"
    using cur tc unfolding tier_chain_def by (auto simp: dom_def) force
  have ne: "Result recipe \<noteq> start" using sv fresh by auto
  show ?thesis
    using tc ne lo up cur unfolding tier_chain_def mark_def
    by (auto simp: dom_def)
qed

lemma dfs_chain:
  "tier_chain es start (parent m) \<Longrightarrow> start \<in> visited m \<Longrightarrow> dom (parent m) \<subseteq> visited m \<Longrightarrow>
   current = start \<or> current \<in> dom (parent m) \<Longrightarrow>
   dfs_search rv reorder es current target m depth maxDepth targetTier = (True, m') \<Longrightarrow>
   tier_chain es start (parent m') \<and> (target = start \<or> target \<in> dom (parent m'))"
  "tier_chain es start (parent m) \<Longrightarrow> start \<in> visited m \<Longrightarrow> dom (parent m) \<subseteq> visited m \<Longrightarrow>
   current = start \<or> current \<in> dom (parent m) \<Longrightarrow>
   dfs_try rv reorder es current target recipes m depth maxDepth targetTier = (True, m') \<Longrightarrow>
   tier_chain es start (parent m') \<and> (target = start \<or> target \<in> dom (parent m'))"
proof (induction rv reorder es current target m depth maxDepth targetTier
         and rv reorder es current target recipes m depth maxDepth targetTier
       arbitrary: m' and m' rule: dfs_search_dfs_try.induct)
  case (1 rv reorder es current target m depth maxDepth targetTier)
  show ?case
  proof (cases "current = target")
    case True
    then show ?thesis using "1.prems" by (simp add: dfs_search.simps(1))
  next
    case False
    then have nd: "\<not> maxDepth \<le> depth" using "1.prems"(5) by (auto simp: dfs_search.simps(1) split: if_splits)
    then have "dfs_try rv reorder es current target
             (reorder (getPossibleRecipesThatRespectTiers rv es current
                         (GetElementTier es current) targetTier))
             m depth maxDepth targetTier = (True, m')"
      using False "1.prems"(5) by (simp add: dfs_search.simps(1))
    from "1.IH"[OF False nd "1.prems"(1-4) this] show ?thesis .
  qed
next
  case (2 rv reorder es current target m depth maxDepth targetTier)
  then show ?case by simp
next
  case (3 rv reorder es current target recipe rest m depth maxDepth targetTier)
  let ?skip1 = "rv = Strict \<and> \<not> allIngredientsLowerTier es recipe"
  let ?skip2 = "GetElementTier es (Result recipe) \<le> GetElementTier es current"
  consider (a) "?skip1" | (b) "\<not> ?skip1" "?skip2"
    | (c) "\<not> ?skip1" "\<not> ?skip2" "Result recipe \<in> visited m"
    | (d) "\<not> ?skip1" "\<not> ?skip2" "Result recipe \<notin> visited m" by blast
  then show ?case
  proof cases
    case a
    then have "dfs_try rv reorder es current target rest m depth maxDepth targetTier = (True, m')"
      using "3.prems"(5) by (auto split: if_splits)
    from "3.IH"(1)[OF a "3.prems"(1-4) this] show ?thesis .
  next
    case b
    then have "dfs_try rv reorder es current target rest m depth maxDepth targetTier = (True, m')"
      using "3.prems"(5) by (auto split: if_splits)
    from "3.IH"(2)[OF b "3.prems"(1-4) this] show ?thesis .
  next
    case c
    then have "dfs_try rv reorder es current target rest m depth maxDepth targetTier = (True, m')"
      using "3.prems"(5) by (auto split: if_splits)
    from "3.IH"(5)[OF c(1,2) _ "3.prems"(1-4) this] c(3) show ?thesis by simp
  next
    case d
    let ?m1 = "mark current recipe m"
    obtain b m1 where r: "dfs_search rv reorder es (Result recipe) target ?m1
                (depth + 1) maxDepth targetTier = (b, m1)" by fastforce
    have up: "GetElementTier es current < GetElementTier es (Result recipe)" using d(2) by simp
    have tc1: "tier_chain es start (parent ?m1)"
      by (rule tier_chain_mark[OF "3.prems"(1-4) up d(3)])
    have sv1: "start \<in> visited ?m1" using "3.prems"(2) by (simp add: mark_def)
    have dv1: "dom (parent ?m1) \<subseteq> visited ?m1" using "3.prems"(3) by (auto simp: mark_def)
    have cur1: "Result recipe = start \<or> Result recipe \<in> dom (parent ?m1)" by (simp add: mark_def)
    show ?thesis
    proof (cases b)
      case True
      then have "m' = m1" using d r "3.prems"(5) by (auto split: if_splits)
      with "3.IH"(3)[OF d tc1 sv1 dv1 cur1] r True show ?thesis by simp
    next
      case False
      have eq1: "visited m1 = visited ?m1 \<and> parent m1 = parent ?m1"
        using dfs_restore(1)[OF dv1] r False by simp
      have fresh: "Result recipe \<notin> visited m" "parent m (Result recipe) = None"
        using d "3.prems"(3) by auto
      have un: "visited (unmark (Result recipe) m1) = visited m" "parent (unmark (Result recipe) m1) = parent m"
        using eq1 fresh by (auto simp: unmark_def mark_def)
      have t: "dfs_try rv reorder es current target rest (unmark (Result recipe) m1) depth maxDepth targetTier = (True, m')"
        using "3.prems"(5) d r False by (auto split: if_splits)
      have bF: "b = False" using False by simp
      from "3.IH"(4)[OF d r[symmetric] bF _ _ _ _ t] un "3.prems"(1-4)
      show ?thesis by simp
    qed
  qed
qed

lemma walk_bound:
  assumes tc: "tier_chain es start pm"
  shows "x = start \<or> x \<in> dom pm \<Longrightarrow>
         \<exists>p. reconstructPath_walk pm x acc = Some (p @ acc) \<and>
             int (length p) \<le> GetElementTier es x - GetElementTier es start"
proof (induction "nat (GetElementTier es x - GetElementTier es start)" arbitrary: x acc rule: less_induct)
  case less
  show ?case
  proof (cases "pm x")
    case None
    have "x = start" using less.prems None by auto
    then show ?thesis using None by (subst reconstructPath_walk.simps) simp
  next
    case (Some s)
    have a: "GetElementTier es (ParentID s) < GetElementTier es x"
      and b: "GetElementTier es start \<le> GetElementTier es (ParentID s)"
      and c: "ParentID s = start \<or> ParentID s \<in> dom pm"
      using tc Some unfolding tier_chain_def by blast+
    have "nat (GetElementTier es (ParentID s) - GetElementTier es start)
            < nat (GetElementTier es x - GetElementTier es start)"
      using a b by linarith
    from less.hyps[OF this c, of "StepRecipe s # acc"]
    obtain p where p: "reconstructPath_walk pm (ParentID s) (StepRecipe s # acc) = Some (p @ StepRecipe s # acc)"
      "int (length p) \<le> GetElementTier es (ParentID s) - GetElementTier es start" by blast
    have "reconstructPath_walk pm x acc = Some ((p @ [StepRecipe s]) @ acc)"
      using Some p(1) by (subst reconstructPath_walk.simps) simp
    moreover have "int (length (p @ [StepRecipe s])) \<le> GetElementTier es x - GetElementTier es start"
      using p(2) a by simp
    ultimately show ?thesis by blast
  qed
qed

lemma tier_chain_empty: "tier_chain es start Map.empty"
  by (simp add: tier_chain_def)

lemma dfs_starts_chain:
  "parent m = Map.empty \<Longrightarrow>
   dfs_starts rv es target maxDepth targetTier basics m = (True, m') \<Longrightarrow>
   \<exists>e \<in> set basics. tier_chain es (ID e) (parent m') \<and> (target = ID e \<or> target \<in> dom (parent m'))"
proof (induction basics arbitrary: m)
  case Nil
  then show ?case by simp
next
  case (Cons elem rest)
  let ?m1 = "m\<lparr>visited := insert (ID elem) (visited m), visitedCount := visitedCount m + 1\<rparr>"
  obtain b m1 where r: "dfs_search rv (\<lambda>possibleRecipes. possibleRecipes) es (ID elem) target ?m1 0 maxDepth targetTier = (b, m1)"
    by fastforce
  have pe: "parent ?m1 = Map.empty" using Cons.prems(1) by simp
  show ?case
  proof (cases b)
    case True
    then have "m' = m1" using Cons.prems(2) r by (simp add: dfsSearchWithTiers_def)
    moreover have "tier_chain es (ID elem) (parent m1) \<and> (target = ID elem \<or> target \<in> dom (parent m1))"
      using dfs_chain(1)[of es "ID elem" ?m1 "ID elem" rv _ target 0 maxDepth targetTier m1] r True pe
      by (simp add: tier_chain_empty)
    ultimately show ?thesis by auto
  next
    case False
    have "parent m1 = parent ?m1"
      using dfs_restore(1)[of ?m1 rv _ es "ID elem" target 0 maxDepth targetTier m1] r False pe by simp
    then have pe2: "parent (m1\<lparr>visited := visited m1 - {ID elem}\<rparr>) = Map.empty" using pe by simp
    have "dfs_starts rv es target maxDepth targetTier rest (m1\<lparr>visited := visited m1 - {ID elem}\<rparr>) = (True, m')"
      using Cons.prems(2) r False by (simp add: dfsSearchWithTiers_def)
    from Cons.IH[OF pe2 this] show ?thesis by auto
  qed
qed

lemma variation_starts_chain:
  "parent m = Map.empty \<Longrightarrow>
   variation_starts es target vi maxDepth targetTier existingPaths k basics m = Some (True, m') \<Longrightarrow>
   \<exists>e \<in> set basics. tier_chain es (ID e) (parent m') \<and> (target = ID e \<or> target \<in> dom (parent m'))"
proof (induction basics arbitrary: m k)
  case Nil
  then show ?case by simp
next
  case (Cons elem rest)
  let ?m1 = "m\<lparr>visited := insert (ID elem) (visited m), visitedCount := visitedCount m + 1\<rparr>"
  obtain b m1 where r: "dfs_search Strict (shuffle vi) es (ID elem) target ?m1 0 maxDepth targetTier = (b, m1)"
    by fastforce
  have pe: "parent ?m1 = Map.empty" using Cons.prems(1) by simp
  show ?case
  proof (cases b)
    case True
    have ch: "tier_chain es (ID elem) (parent m1) \<and> (target = ID elem \<or> target \<in> dom (parent m1))"
      using dfs_chain(1)[of es "ID elem" ?m1 "ID elem" Strict _ target 0 maxDepth targetTier m1] r True pe
      by (simp add: tier_chain_empty)
    show ?thesis
    proof (cases "reconstructPath target (parent m1)")
      case None
      then show ?thesis using Cons.prems(2) r True by (simp add: dfsVariationSearch_def)
    next
      case (Some path)
      show ?thesis
      proof (cases "getPathSignature path \<in> existingPaths k")
        case dup: True
        have "variation_starts es target vi maxDepth targetTier existingPaths (Suc k) rest
                (m1\<lparr>parent := Map.empty, visited := {ID elem}\<rparr>) = Some (True, m')"
          using Cons.prems(2) r True Some dup by (simp add: dfsVariationSearch_def)
        from Cons.IH[OF _ this] show ?thesis by auto
      next
        case False
        then have "m' = m1" using Cons.prems(2) r True Some by (simp add: dfsVariationSearch_def)
        then show ?thesis using ch by auto
      qed
    qed
  next
    case False
    have "parent m1 = parent ?m1"
      using dfs_restore(1)[of ?m1 Strict _ es "ID elem" target 0 maxDepth targetTier m1] r False pe by simp
    then have pe2: "parent (m1\<lparr>visited := visited m1 - {ID elem}\<rparr>) = Map.empty" using pe by simp
    have "variation_starts es target vi maxDepth targetTier existingPaths (Suc k) rest (m1\<lparr>visited := visited m1 - {ID elem}\<rparr>) = Some (True, m')"
      using Cons.prems(2) r False by (simp add: dfsVariationSearch_def)
    from Cons.IH[OF pe2 this] show ?thesis by auto
  qed
qed

lemma finish_path:
  "finish es target pm n elapsed vi = Returns (Inr r) \<Longrightarrow> reconstructPath target pm = Some (Path r)"
  by (auto simp: finish_def assemble_def split: option.splits run.splits)

lemma chain_path_bound:
  assumes "tier_chain es start pm" "target = start \<or> target \<in> dom pm"
    "reconstructPath target pm = Some p" "0 \<le> GetElementTier es start"
  shows "int (length p) \<le> 2 * GetElementTier es target"
proof -
  obtain q where "reconstructPath_walk pm target [] = Some (q @ [])"
     "int (length q) \<le> GetElementTier es target - GetElementTier es start"
    using walk_bound[OF assms(1,2), of "[]"] by blast
  then have "int (length p) \<le> GetElementTier es target"
    using assms(3,4) by (simp add: reconstructPath_def)
  then show ?thesis by linarith
qed

lemma set_rotate_elements: "set (rotate_elements n xs) = set xs"
  by (auto simp: rotate_elements_def) (metis append_take_drop_id set_append Un_iff)+

text \<open>
  Claim C3, amended. Depth bound: in a catalog whose basic elements have no negative
  tier, a path returned by \<open>FindShortestPath\<close> of the depth-bounded engine, or by
  \<open>findPathVariation\<close> or \<open>findPathWithVariation\<close> (the sources of every further result
  of \<open>FindMultiplePaths\<close>, in the later and in the earlier revision), has at most
  \<open>2 * tier(target)\<close> recipes. The ceiling of the variants lies above \<open>2 * tier(target)\<close>,
  and the ceiling wraps for a huge tier, so the bound does not come from the ceiling:
  tiers rise strictly along a path, which therefore has at most
  \<open>tier(target) - tier(start)\<close> recipes.
\<close>

theorem dfs_depth_bound:
  assumes basic0: "\<forall>e \<in> set (GetBasicElements es). 0 \<le> GetElementTier es (ID e)"
  shows "(DFS_FindShortestPath rv es elapsed target = Returns (Inr r) \<longrightarrow>
            int (length (Path r)) \<le> 2 * GetElementTier es target) \<and>
         (DFS_findPathVariation es elapsed' target variationIndex (GetElementTier es target)
            existingPaths = Returns (Inr r') \<longrightarrow>
            int (length (Path r')) \<le> 2 * GetElementTier es target) \<and>
         (DFS_findPathWithVariation es elapsed'' target variationIndex' = Returns (Inr r'') \<longrightarrow>
            int (length (Path r'')) \<le> 2 * GetElementTier es target)"
proof (intro conjI impI)
  assume a: "DFS_FindShortestPath rv es elapsed target = Returns (Inr r)"
  then obtain m where m: "dfs_starts rv es target (wrap64 (GetElementTier es target * 2))
                (GetElementTier es target) (GetBasicElements es) no_marks = (True, m)"
    and f: "finish es target (parent m) (visitedCount m) elapsed 0 = Returns (Inr r)"
    by (auto simp: DFS_FindShortestPath_def split: if_splits prod.splits bool.splits)
  have "parent no_marks = Map.empty" by (simp add: no_marks_def)
  from dfs_starts_chain[OF this m] obtain e where e: "e \<in> set (GetBasicElements es)"
    "tier_chain es (ID e) (parent m)" "target = ID e \<or> target \<in> dom (parent m)" by blast
  show "int (length (Path r)) \<le> 2 * GetElementTier es target"
    using chain_path_bound[OF e(2,3) finish_path[OF f]] basic0 e(1) by simp
next
  assume a: "DFS_findPathVariation es elapsed' target variationIndex (GetElementTier es target)
            existingPaths = Returns (Inr r')"
  then obtain m where m: "variation_starts es target variationIndex
                (wrap64 (wrap64 (GetElementTier es target * 2) + int (variationIndex mod 5)))
                (GetElementTier es target) existingPaths 0
                (rotate_elements (variationIndex mod length (GetBasicElements es))
                   (GetBasicElements es))
                no_marks = Some (True, m)"
    and f: "finish es target (parent m) (visitedCount m) elapsed' (int variationIndex) = Returns (Inr r')"
    by (auto simp: DFS_findPathVariation_def split: if_splits prod.splits bool.splits option.splits)
  have "parent no_marks = Map.empty" by (simp add: no_marks_def)
  from variation_starts_chain[OF this m] obtain e where e: "e \<in> set (GetBasicElements es)"
    "tier_chain es (ID e) (parent m)" "target = ID e \<or> target \<in> dom (parent m)"
    by (auto simp: set_rotate_elements)
  show "int (length (Path r')) \<le> 2 * GetElementTier es target"
    using chain_path_bound[OF e(2,3) finish_path[OF f]] basic0 e(1) by simp
next
  assume a: "DFS_findPathWithVariation es elapsed'' target variationIndex' = Returns (Inr r'')"
  then obtain m where m: "dfs_starts Loose es target
                (wrap64 (wrap64 (GetElementTier es target * 2) + int (variationIndex' mod 5)))
                (GetElementTier es target)
                (rotate_elements (variationIndex' mod length (GetBasicElements es))
                   (GetBasicElements es))
                no_marks = (True, m)"
    and f: "finish es target (parent m) (visitedCount m) elapsed'' (int variationIndex')
              = Returns (Inr r'')"
    by (auto simp: DFS_findPathWithVariation_def split: if_splits prod.splits bool.splits)
  have "parent no_marks = Map.empty" by (simp add: no_marks_def)
  from dfs_starts_chain[OF this m] obtain e where e: "e \<in> set (GetBasicElements es)"
    "tier_chain es (ID e) (parent m)" "target = ID e \<or> target \<in> dom (parent m)"
    by (auto simp: set_rotate_elements)
  show "int (length (Path r'')) \<le> 2 * GetElementTier es target"
    using chain_path_bound[OF e(2,3) finish_path[OF f]] basic0 e(1) by simp
qed

text \<open>
  Claim C7. Backtracking restores state: when \<open>dfsSearchWithTiers\<close> returns false, the
  visited set and the parent map are what they were when the call was entered. Every call
  the engine makes enters with all keys of the parent map marked visited (both start
  empty and grow together), which is the first premise.
\<close>

theorem dfs_backtracking_restores:
  assumes "dom (parent m) \<subseteq> visited m"
    and "dfsSearchWithTiers rv es current target m depth maxDepth targetTier = (False, m')"
  shows "visited m' = visited m \<and> parent m' = parent m"
  using dfs_restore(1)[OF assms(1)] assms(2) unfolding dfsSearchWithTiers_def by blast

lemmas demo_eval =
  demo_catalog_def element_def GetBasicElements_def List.map_filter_def GetElementTier_def
  getPossibleRecipesThatRespectTiers_def isIngredient_def allIngredientsLowerTier_def
  IsBasicElement_def

lemma demo_dfs_fails:
  "dfsSearchWithTiers Strict demo_catalog ''A'' ''X'' (start_marks ''A'') 0 4 2 =
     (False, (start_marks ''A'')\<lparr>visitedCount := 4\<rparr>)"
  by (simp add: dfsSearchWithTiers_def dfs_search.simps(1) start_marks_def mark_def unmark_def demo_eval)

theorem dfs_backtracking_restores_witness:
  "dom (parent (start_marks ''A'')) \<subseteq> visited (start_marks ''A'') \<and>
   dfsSearchWithTiers Strict demo_catalog ''A'' ''X'' (start_marks ''A'') 0 4 2 =
     (False, (start_marks ''A'')\<lparr>visitedCount := 4\<rparr>) \<and>
   visited ((start_marks ''A'')\<lparr>visitedCount := 4\<rparr>) = visited (start_marks ''A'') \<and>
   parent ((start_marks ''A'')\<lparr>visitedCount := 4\<rparr>) = parent (start_marks ''A'')"
proof -
  have pre: "dom (parent (start_marks ''A'')) \<subseteq> visited (start_marks ''A'')"
    by (simp add: start_marks_def)
  show ?thesis
    using pre demo_dfs_fails dfs_backtracking_restores[OF pre demo_dfs_fails] by simp
qed

lemma returned_pathD: "returned_path out = Some p \<Longrightarrow> \<exists>r. out = Returns (Inr r) \<and> Path r = p"
  by (auto simp: returned_path_def split: run.splits sum.splits)

lemmas tree_eval =
  finish_def assemble_def reconstructPath_def reconstructPath_walk.simps buildTreeStructure_def
  recipesByResult_def buildNodes.simps addIngredient_def

lemma demo_dfs_path:
  "returned_path (DFS_FindShortestPath Strict demo_catalog 0 ''D'') =
     Some [\<lparr>Ingredients = [''A'', ''B''], Result = ''C''\<rparr>,
           \<lparr>Ingredients = [''A'', ''C''], Result = ''D''\<rparr>]"
  by (simp add: returned_path_def DFS_FindShortestPath_def dfsSearchWithTiers_def wrap64_def
        dfs_search.simps(1) no_marks_def mark_def unmark_def demo_eval tree_eval)

lemma demo_variation_path:
  "returned_path (DFS_findPathVariation demo_catalog 0 ''D'' 1 2 (\<lambda>k. {})) =
     Some [\<lparr>Ingredients = [''A'', ''B''], Result = ''C''\<rparr>,
           \<lparr>Ingredients = [''A'', ''C''], Result = ''D''\<rparr>]"
  by (simp add: returned_path_def DFS_findPathVariation_def dfsVariationSearch_def shuffle_def
        wrap64_def rotate_elements_def dfs_search.simps(1) no_marks_def mark_def unmark_def
        demo_eval tree_eval)

lemma demo_loose_variation_path:
  "returned_path (DFS_findPathWithVariation demo_catalog 0 ''D'' 1) =
     Some [\<lparr>Ingredients = [''A'', ''B''], Result = ''C''\<rparr>,
           \<lparr>Ingredients = [''A'', ''C''], Result = ''D''\<rparr>]"
  by (simp add: returned_path_def DFS_findPathWithVariation_def dfsSearchWithTiers_def wrap64_def
        rotate_elements_def dfs_search.simps(1) no_marks_def mark_def unmark_def demo_eval tree_eval)

theorem dfs_depth_bound_witness:
  "(\<exists>r. DFS_FindShortestPath Strict demo_catalog 0 ''D'' = Returns (Inr r) \<and>
        length (Path r) = 2 \<and>
        int (length (Path r)) \<le> 2 * GetElementTier demo_catalog ''D'') \<and>
   (\<exists>r'. DFS_findPathVariation demo_catalog 0 ''D'' 1 (GetElementTier demo_catalog ''D'')
          (\<lambda>k. {}) = Returns (Inr r') \<and>
        length (Path r') = 2 \<and>
        int (length (Path r')) \<le> 2 * GetElementTier demo_catalog ''D'') \<and>
   (\<exists>r''. DFS_findPathWithVariation demo_catalog 0 ''D'' 1 = Returns (Inr r'') \<and>
        length (Path r'') = 2 \<and>
        int (length (Path r'')) \<le> 2 * GetElementTier demo_catalog ''D'')"
proof -
  have basic0: "\<forall>e \<in> set (GetBasicElements demo_catalog). 0 \<le> GetElementTier demo_catalog (ID e)"
    by (simp add: demo_eval)
  have tier: "GetElementTier demo_catalog ''D'' = 2" by (simp add: demo_eval)
  obtain r where r: "DFS_FindShortestPath Strict demo_catalog 0 ''D'' = Returns (Inr r)"
    "length (Path r) = 2"
    using returned_pathD[OF demo_dfs_path] by auto
  obtain r' where r': "DFS_findPathVariation demo_catalog 0 ''D'' 1
      (GetElementTier demo_catalog ''D'') (\<lambda>k. {}) = Returns (Inr r')" "length (Path r') = 2"
    using returned_pathD[OF demo_variation_path] tier by auto
  obtain r'' where r'': "DFS_findPathWithVariation demo_catalog 0 ''D'' 1 = Returns (Inr r'')"
    "length (Path r'') = 2"
    using returned_pathD[OF demo_loose_variation_path] by auto
  have "int (length (Path r)) \<le> 2 * GetElementTier demo_catalog ''D''"
    using dfs_depth_bound[OF basic0, of Strict 0 "''D''" r] r(1) by blast
  moreover have "int (length (Path r')) \<le> 2 * GetElementTier demo_catalog ''D''"
    using dfs_depth_bound[OF basic0, of _ _ "''D''" _ 0 1 "\<lambda>k. {}" r'] r'(1) by blast
  moreover have "int (length (Path r'')) \<le> 2 * GetElementTier demo_catalog ''D''"
    using dfs_depth_bound[OF basic0, of _ _ "''D''" _ _ _ _ _ 0 1 r''] r''(1) by blast
  ultimately show ?thesis using r r' r'' by blast
qed

lemma two_mod_two: "2 mod Suc (Suc 0) = (0::nat)"
  by (simp add: numeral_2_eq_2)

lemmas below_zero_eval =
  returned_path_def dfsSearchWithTiers_def dfsVariationSearch_def shuffle_def wrap64_def
  rotate_elements_def dfs_search.simps(1) no_marks_def mark_def unmark_def two_mod_two
  below_zero_catalog_def long_way_def found_before_def demo_eval tree_eval

text \<open>
  Claim C3 as stated, without the condition on the basic elements, fails on
  \<open>below_zero_catalog\<close>, where the target has tier 1 and the basic element \<open>A\<close> tier -3. In
  the earlier revision the worker with index 2 of \<open>FindMultiplePaths\<close> returns the three
  recipes of \<open>long_way\<close>. In the later revision \<open>FindShortestPath\<close> returns \<open>B + B \<rightarrow> T\<close>, and
  the worker with index 1, which finds that path known, returns \<open>long_way\<close> as well.
\<close>

theorem dfs_depth_bound_fails_below_zero:
  "returned_path (DFS_findPathWithVariation below_zero_catalog 0 ''T'' 2) = Some long_way \<and>
   returned_path (DFS_FindShortestPath Strict below_zero_catalog 0 ''T'') =
     Some [\<lparr>Ingredients = [''B'', ''B''], Result = ''T''\<rparr>] \<and>
   getPathSignature [\<lparr>Ingredients = [''B'', ''B''], Result = ''T''\<rparr>] \<in> found_before 0 \<and>
   returned_path (DFS_findPathVariation below_zero_catalog 0 ''T'' 1
       (GetElementTier below_zero_catalog ''T'') found_before) = Some long_way \<and>
   \<not> int (length long_way) \<le> 2 * GetElementTier below_zero_catalog ''T''"
proof (intro conjI)
  show "returned_path (DFS_findPathWithVariation below_zero_catalog 0 ''T'' 2) = Some long_way"
    by (simp add: DFS_findPathWithVariation_def below_zero_eval)
  show "returned_path (DFS_FindShortestPath Strict below_zero_catalog 0 ''T'') =
     Some [\<lparr>Ingredients = [''B'', ''B''], Result = ''T''\<rparr>]"
    by (simp add: DFS_FindShortestPath_def below_zero_eval)
  show "getPathSignature [\<lparr>Ingredients = [''B'', ''B''], Result = ''T''\<rparr>] \<in> found_before 0"
    by (simp add: found_before_def)
  show "returned_path (DFS_findPathVariation below_zero_catalog 0 ''T'' 1
       (GetElementTier below_zero_catalog ''T'') found_before) = Some long_way"
    by (simp add: DFS_findPathVariation_def below_zero_eval)
  show "\<not> int (length long_way) \<le> 2 * GetElementTier below_zero_catalog ''T''"
    by (simp add: below_zero_catalog_def long_way_def demo_eval)
qed

text \<open>
  The depth ceiling wraps: for a target of tier \<open>2 ^ 62\<close> the doubled tier is negative, and
  the search gives up at the start element although one recipe makes the target.
\<close>

lemma depth_ceiling_wraps:
  "DFS_FindShortestPath rv huge_tier_catalog 0 ''T'' = Returns (Inl ErrNoPathFound)"
  "DFS_findPathWithVariation huge_tier_catalog 0 ''T'' 1 = Returns (Inl ErrNoPathFound)"
  by (cases rv)
     (simp_all add: DFS_FindShortestPath_def DFS_findPathWithVariation_def dfsSearchWithTiers_def
        wrap64_def rotate_elements_def dfs_search.simps(1) no_marks_def mark_def unmark_def
        huge_tier_catalog_def demo_eval)

section \<open>Backpointers and the reconstruction walk\<close>

lemma walk_measure_step:
  assumes fin: "finite (dom pm)" and low: "parents_lower_tier es pm" and s: "pm x = Some s"
  shows "card {y \<in> dom pm. GetElementTier es y \<le> GetElementTier es (ParentID s)}
           < card {y \<in> dom pm. GetElementTier es y \<le> GetElementTier es x}"
proof (rule psubset_card_mono)
  show "finite {y \<in> dom pm. GetElementTier es y \<le> GetElementTier es x}" using fin by simp
  have lt: "GetElementTier es (ParentID s) < GetElementTier es x"
    using low s unfolding parents_lower_tier_def by blast
  have "x \<in> {y \<in> dom pm. GetElementTier es y \<le> GetElementTier es x}" using s by auto
  moreover have "x \<notin> {y \<in> dom pm. GetElementTier es y \<le> GetElementTier es (ParentID s)}"
    using lt by auto
  moreover have "{y \<in> dom pm. GetElementTier es y \<le> GetElementTier es (ParentID s)}
        \<subseteq> {y \<in> dom pm. GetElementTier es y \<le> GetElementTier es x}" using lt by auto
  ultimately show "{y \<in> dom pm. GetElementTier es y \<le> GetElementTier es (ParentID s)}
        \<subset> {y \<in> dom pm. GetElementTier es y \<le> GetElementTier es x}" by blast
qed

lemma walk_terminates:
  assumes fin: "finite (dom pm)" and low: "parents_lower_tier es pm"
  shows "\<exists>p. reconstructPath_walk pm x acc = Some p"
proof (induction "card {y \<in> dom pm. GetElementTier es y \<le> GetElementTier es x}"
         arbitrary: x acc rule: less_induct)
  case less
  show ?case
  proof (cases "pm x")
    case None
    then show ?thesis by (subst reconstructPath_walk.simps) simp
  next
    case (Some s)
    from less.hyps[OF walk_measure_step[OF fin low Some], of "StepRecipe s # acc"]
    show ?thesis using Some by (subst reconstructPath_walk.simps) simp
  qed
qed

lemma forward_walk_terminates:
  assumes fin: "finite (dom pm)" and low: "parents_lower_tier es pm"
  shows "\<exists>p. reconstructForwardPath_walk es pm x acc = Some p"
proof (induction "card {y \<in> dom pm. GetElementTier es y \<le> GetElementTier es x}"
         arbitrary: x acc rule: less_induct)
  case less
  show ?case
  proof (cases "pm x")
    case None
    then show ?thesis by (subst reconstructForwardPath_walk.simps) simp
  next
    case (Some s)
    from less.hyps[OF walk_measure_step[OF fin low Some], of "StepRecipe s # acc"]
    show ?thesis using Some by (subst reconstructForwardPath_walk.simps) simp
  qed
qed

lemma bfs_expand_lower:
  "finite (dom (parent st)) \<and> parents_lower_tier es (parent st) \<Longrightarrow>
   finite (dom (parent (bfs_expand rv es target current rs st))) \<and>
   parents_lower_tier es (parent (bfs_expand rv es target current rs st))"
proof (induction rs arbitrary: st)
  case Nil
  then show ?case by simp
next
  case (Cons recipe rest)
  have push: "finite (dom (parent (enqueue current recipe st))) \<and>
              parents_lower_tier es (parent (enqueue current recipe st))"
    if "\<not> GetElementTier es (Result recipe) \<le> GetElementTier es current"
    using Cons.prems that by (auto simp: enqueue_def parents_lower_tier_def)
  show ?case
    using Cons.IH[OF Cons.prems] Cons.IH[OF push] push by auto
qed

lemma bfs_loop_lower:
  "finite (dom (parent st)) \<and> parents_lower_tier es (parent st) \<Longrightarrow>
   finite (dom (parent (bfs_loop rv es target st))) \<and>
   parents_lower_tier es (parent (bfs_loop rv es target st))"
proof (induction rv es target st rule: bfs_loop.induct)
  case (1 rv es target st)
  show ?case
  proof (cases "queue st")
    case Nil
    then show ?thesis using "1.prems" by (simp add: bfs_loop.simps[of rv es target st])
  next
    case (Cons current rest)
    show ?thesis
    proof (cases "found st \<or> current = target")
      case True
      then show ?thesis using "1.prems" Cons by (auto simp: bfs_loop.simps[of rv es target st])
    next
      case False
      let ?st' = "bfs_expand rv es target current
                    (getPossibleRecipesThatRespectTiers rv es current
                       (GetElementTier es current) (GetElementTier es target))
                    (st\<lparr>queue := rest\<rparr>)"
      have "finite (dom (parent ?st')) \<and> parents_lower_tier es (parent ?st')"
        using bfs_expand_lower[of "st\<lparr>queue := rest\<rparr>"] "1.prems" by simp
      from "1.IH"[OF Cons _ _ this] False
      have "finite (dom (parent (bfs_loop rv es target ?st'))) \<and>
            parents_lower_tier es (parent (bfs_loop rv es target ?st'))" by simp
      moreover have "bfs_loop rv es target st = bfs_loop rv es target ?st'"
        using Cons False by (simp add: bfs_loop.simps[of rv es target st])
      ultimately show ?thesis by simp
    qed
  qed
qed

lemma dfs_lower:
  "finite (dom (parent m)) \<and> parents_lower_tier es (parent m) \<Longrightarrow>
   finite (dom (parent (snd (dfs_search rv reorder es current target m depth maxDepth targetTier)))) \<and>
   parents_lower_tier es
     (parent (snd (dfs_search rv reorder es current target m depth maxDepth targetTier)))"
  "finite (dom (parent m)) \<and> parents_lower_tier es (parent m) \<Longrightarrow>
   finite (dom (parent (snd (dfs_try rv reorder es current target recipes m depth maxDepth targetTier)))) \<and>
   parents_lower_tier es
     (parent (snd (dfs_try rv reorder es current target recipes m depth maxDepth targetTier)))"
proof (induction rv reorder es current target m depth maxDepth targetTier
         and rv reorder es current target recipes m depth maxDepth targetTier
       rule: dfs_search_dfs_try.induct)
  case (1 rv reorder es current target m depth maxDepth targetTier)
  then show ?case by (simp add: dfs_search.simps(1))
next
  case (2 rv reorder es current target m depth maxDepth targetTier)
  then show ?case by simp
next
  case (3 rv reorder es current target recipe rest m depth maxDepth targetTier)
  let ?skip1 = "rv = Strict \<and> \<not> allIngredientsLowerTier es recipe"
  let ?skip2 = "GetElementTier es (Result recipe) \<le> GetElementTier es current"
  consider (a) "?skip1" | (b) "\<not> ?skip1" "?skip2"
    | (c) "\<not> ?skip1" "\<not> ?skip2" "Result recipe \<in> visited m"
    | (d) "\<not> ?skip1" "\<not> ?skip2" "Result recipe \<notin> visited m" by blast
  then show ?case
  proof cases
    case a
    then show ?thesis using "3.IH"(1)[OF a "3.prems"] by simp
  next
    case b
    then show ?thesis using "3.IH"(2)[OF b "3.prems"] by auto
  next
    case c
    then show ?thesis using "3.IH"(5)[OF c(1,2) _ "3.prems"] by auto
  next
    case d
    let ?m1 = "mark current recipe m"
    obtain b m1 where r: "dfs_search rv reorder es (Result recipe) target ?m1
                (depth + 1) maxDepth targetTier = (b, m1)" by fastforce
    have pm: "finite (dom (parent ?m1)) \<and> parents_lower_tier es (parent ?m1)"
      using "3.prems" d(2) by (auto simp: mark_def parents_lower_tier_def)
    have m1: "finite (dom (parent m1)) \<and> parents_lower_tier es (parent m1)"
      using "3.IH"(3)[OF d pm] r by simp
    show ?thesis
    proof (cases b)
      case True
      then show ?thesis using d r m1 by auto
    next
      case False
      have un: "finite (dom (parent (unmark (Result recipe) m1))) \<and>
                parents_lower_tier es (parent (unmark (Result recipe) m1))"
        using m1 by (auto simp: unmark_def parents_lower_tier_def split: if_splits)
      have bF: "b = False" using False by simp
      from "3.IH"(4)[OF d r[symmetric] bF un] show ?thesis using d r False by auto
    qed
  qed
qed

lemma forward_expand_lower:
  "finite (dom (forwardParent st)) \<and> parents_lower_tier es (forwardParent st) \<Longrightarrow>
   \<forall>r \<in> set rs. isIngredient current r \<Longrightarrow>
   finite (dom (forwardParent (forward_expand es current currentTier rs st))) \<and>
   parents_lower_tier es (forwardParent (forward_expand es current currentTier rs st))"
proof (induction rs arbitrary: st)
  case Nil
  then show ?case by simp
next
  case (Cons recipe rest)
  have rest: "\<forall>r \<in> set rest. isIngredient current r" using Cons.prems(2) by simp
  have push: "finite (dom (forwardParent (forwardPush es current recipe st))) \<and>
              parents_lower_tier es (forwardParent (forwardPush es current recipe st))"
    if "allIngredientsLowerTier es recipe"
  proof -
    have "GetElementTier es current < GetElementTier es (Result recipe)"
      using that Cons.prems(2) by (auto simp: allIngredientsLowerTier_def isIngredient_def list_all_iff)
    then show ?thesis
      using Cons.prems(1) by (auto simp: forwardPush_def parents_lower_tier_def)
  qed
  show ?case
    using Cons.IH[OF Cons.prems(1) rest] Cons.IH[OF push rest] push
    by (auto simp: forwardPush_def)
qed

lemma forward_level_lower:
  "finite (dom (forwardParent st)) \<and> parents_lower_tier es (forwardParent st) \<Longrightarrow>
   finite (dom (forwardParent (forward_level es n st))) \<and>
   parents_lower_tier es (forwardParent (forward_level es n st))"
proof (induction n arbitrary: st)
  case 0
  then show ?case by simp
next
  case (Suc n)
  show ?case
  proof (cases "forwardQueue st")
    case Nil
    then show ?thesis using Suc.prems by simp
  next
    case (Cons current rest)
    let ?st2 = "forward_expand es current (tierAt (forwardTier st) current)
                    (getValidRecipesWithElementAnyPosition es current) (st\<lparr>forwardQueue := rest\<rparr>)"
    have "finite (dom (forwardParent ?st2)) \<and> parents_lower_tier es (forwardParent ?st2)"
      using forward_expand_lower[of "st\<lparr>forwardQueue := rest\<rparr>" es
              "getValidRecipesWithElementAnyPosition es current" current] Suc.prems
      by (simp add: getValidRecipesWithElementAnyPosition_def)
    from Suc.IH[OF this] show ?thesis using Cons Suc.prems by simp
  qed
qed

lemma backward_ingredients_forwardParent:
  "forwardParent (backward_ingredients es current currentTier recipe ings st) = forwardParent st"
  by (induction ings arbitrary: st) (auto simp: backwardPush_def)

lemma backward_expand_forwardParent:
  "forwardParent (backward_expand es current currentTier rs st) = forwardParent st"
  by (induction rs arbitrary: st) (auto simp: Let_def backward_ingredients_forwardParent)

lemma backward_level_forwardParent:
  "forwardParent (backward_level es n st) = forwardParent st"
proof (induction n arbitrary: st)
  case 0
  then show ?case by simp
next
  case (Suc n)
  then show ?case
    by (cases "backwardQueue st") (auto simp: backward_expand_forwardParent)
qed

lemma bid_loop_lower:
  "finite (dom (forwardParent st)) \<and> parents_lower_tier es (forwardParent st) \<Longrightarrow>
   finite (dom (forwardParent (bid_loop es st))) \<and>
   parents_lower_tier es (forwardParent (bid_loop es st))"
proof (induction es st rule: bid_loop.induct)
  case (1 es st)
  let ?st1 = "forward_level es (length (forwardQueue st)) st"
  let ?st2 = "backward_level es (length (backwardQueue ?st1)) ?st1"
  have l1: "finite (dom (forwardParent ?st1)) \<and> parents_lower_tier es (forwardParent ?st1)"
    using forward_level_lower[OF "1.prems"] .
  show ?case
  proof (cases "forwardQueue st \<noteq> [] \<and> backwardQueue st \<noteq> [] \<and> \<not> bidFound st")
    case False
    then show ?thesis using "1.prems" by (auto simp: bid_loop.simps[of es st])
  next
    case go: True
    show ?thesis
    proof (cases "bidFound ?st1")
      case True
      then have "bid_loop es st = ?st1" using go by (simp add: bid_loop.simps[of es st] Let_def)
      then show ?thesis using l1 by simp
    next
      case False
      have eq: "bid_loop es st = bid_loop es ?st2"
        using go False by (simp add: bid_loop.simps[of es st] Let_def)
      have "finite (dom (forwardParent ?st2)) \<and> parents_lower_tier es (forwardParent ?st2)"
        using l1 by (simp add: backward_level_forwardParent)
      from "1.IH"[OF go refl False this] eq show ?thesis by simp
    qed
  qed
qed

lemma dfs_starts_lower:
  "finite (dom (parent m)) \<and> parents_lower_tier es (parent m) \<Longrightarrow>
   finite (dom (parent (snd (dfs_starts rv es target maxDepth targetTier basics m)))) \<and>
   parents_lower_tier es (parent (snd (dfs_starts rv es target maxDepth targetTier basics m)))"
proof (induction basics arbitrary: m)
  case Nil
  then show ?case by simp
next
  case (Cons elem rest)
  let ?m1 = "m\<lparr>visited := insert (ID elem) (visited m), visitedCount := visitedCount m + 1\<rparr>"
  obtain b m1 where r: "dfs_search rv (\<lambda>possibleRecipes. possibleRecipes) es (ID elem) target ?m1 0 maxDepth targetTier = (b, m1)"
    by fastforce
  have "finite (dom (parent ?m1)) \<and> parents_lower_tier es (parent ?m1)"
    using Cons.prems by simp
  from dfs_lower(1)[OF this, of rv "\<lambda>possibleRecipes. possibleRecipes" "ID elem" target 0 maxDepth targetTier] r
  have p1: "finite (dom (parent m1)) \<and> parents_lower_tier es (parent m1)" by simp
  show ?case
  proof (cases b)
    case True
    then show ?thesis using r p1 by (simp add: dfsSearchWithTiers_def)
  next
    case False
    have "finite (dom (parent (m1\<lparr>visited := visited m1 - {ID elem}\<rparr>))) \<and>
          parents_lower_tier es (parent (m1\<lparr>visited := visited m1 - {ID elem}\<rparr>))"
      using p1 by simp
    from Cons.IH[OF this] show ?thesis using r False by (simp add: dfsSearchWithTiers_def)
  qed
qed

lemma variation_starts_lower:
  "finite (dom (parent m)) \<and> parents_lower_tier es (parent m) \<Longrightarrow>
   variation_starts es target vi maxDepth targetTier existingPaths k basics m = Some (b, m') \<Longrightarrow>
   finite (dom (parent m')) \<and> parents_lower_tier es (parent m')"
proof (induction basics arbitrary: m k)
  case Nil
  then show ?case by simp
next
  case (Cons elem rest)
  let ?m1 = "m\<lparr>visited := insert (ID elem) (visited m), visitedCount := visitedCount m + 1\<rparr>"
  obtain c m1 where r: "dfs_search Strict (shuffle vi) es (ID elem) target ?m1 0 maxDepth targetTier = (c, m1)"
    by fastforce
  have "finite (dom (parent ?m1)) \<and> parents_lower_tier es (parent ?m1)"
    using Cons.prems(1) by simp
  from dfs_lower(1)[OF this, of Strict "shuffle vi" "ID elem" target 0 maxDepth targetTier] r
  have p1: "finite (dom (parent m1)) \<and> parents_lower_tier es (parent m1)" by simp
  show ?case
  proof (cases c)
    case False
    have p2: "finite (dom (parent (m1\<lparr>visited := visited m1 - {ID elem}\<rparr>))) \<and>
          parents_lower_tier es (parent (m1\<lparr>visited := visited m1 - {ID elem}\<rparr>))"
      using p1 by simp
    have "variation_starts es target vi maxDepth targetTier existingPaths (Suc k) rest
            (m1\<lparr>visited := visited m1 - {ID elem}\<rparr>) = Some (b, m')"
      using Cons.prems(2) r False by (simp add: dfsVariationSearch_def)
    from Cons.IH[OF p2 this] show ?thesis .
  next
    case True
    obtain path where path: "reconstructPath target (parent m1) = Some path"
      using Cons.prems(2) r True by (auto simp: dfsVariationSearch_def split: option.splits)
    show ?thesis
    proof (cases "getPathSignature path \<in> existingPaths k")
      case dup: True
      have p2: "finite (dom (parent (m1\<lparr>parent := Map.empty, visited := {ID elem}\<rparr>))) \<and>
          parents_lower_tier es (parent (m1\<lparr>parent := Map.empty, visited := {ID elem}\<rparr>))"
        by (simp add: parents_lower_tier_def)
      have "variation_starts es target vi maxDepth targetTier existingPaths (Suc k) rest
            (m1\<lparr>parent := Map.empty, visited := {ID elem}\<rparr>) = Some (b, m')"
        using Cons.prems(2) r True path dup by (simp add: dfsVariationSearch_def)
      from Cons.IH[OF p2 this] show ?thesis .
    next
      case False
      then have "m' = m1" using Cons.prems(2) r True path by (simp add: dfsVariationSearch_def)
      then show ?thesis using p1 by simp
    qed
  qed
qed

text \<open>
  Claim C10. In the parent map built by a search every recorded parent has a strictly
  lower tier than the child it is recorded for: this holds for the map of the
  breadth-first loop (both revisions), is kept by the depth-first search and so holds for
  the maps of the depth-first loops over the start elements, and holds for the forward
  map of the bidirectional loop. On every finite map with that property the walks of
  \<open>reconstructPath\<close> and \<open>reconstructForwardPath\<close> end, from every start name.
\<close>

theorem backpointers_descend_walk_terminates:
  "(finite (dom pm) \<and> parents_lower_tier es pm \<longrightarrow>
      (\<exists>p. reconstructPath t pm = Some p) \<and> (\<exists>p. reconstructForwardPath es t pm = Some p)) \<and>
   (finite (dom (parent (bfs_loop rv es target (bfs_init basics)))) \<and>
    parents_lower_tier es (parent (bfs_loop rv es target (bfs_init basics)))) \<and>
   (finite (dom (parent m)) \<and> parents_lower_tier es (parent m) \<longrightarrow>
      finite (dom (parent (snd (dfs_search rv reorder es current target m depth maxDepth targetTier)))) \<and>
      parents_lower_tier es
        (parent (snd (dfs_search rv reorder es current target m depth maxDepth targetTier)))) \<and>
   (finite (dom (forwardParent (bid_loop es (bid_init es basics target)))) \<and>
    parents_lower_tier es (forwardParent (bid_loop es (bid_init es basics target)))) \<and>
   (finite (dom (parent (snd (dfs_starts rv es target maxDepth targetTier basics no_marks)))) \<and>
    parents_lower_tier es
      (parent (snd (dfs_starts rv es target maxDepth targetTier basics no_marks)))) \<and>
   (variation_starts es target variationIndex maxDepth targetTier existingPaths 0 basics no_marks
      = Some (b, m') \<longrightarrow>
    finite (dom (parent m')) \<and> parents_lower_tier es (parent m'))"
proof (intro conjI impI)
  assume "finite (dom pm) \<and> parents_lower_tier es pm"
  then have fl: "finite (dom pm)" "parents_lower_tier es pm" by blast+
  show "\<exists>p. reconstructPath t pm = Some p"
    unfolding reconstructPath_def by (rule walk_terminates[OF fl])
  show "\<exists>p. reconstructForwardPath es t pm = Some p"
    unfolding reconstructForwardPath_def by (rule forward_walk_terminates[OF fl])
next
  have "finite (dom (parent (bfs_init basics))) \<and> parents_lower_tier es (parent (bfs_init basics))"
    by (simp add: bfs_init_def parents_lower_tier_def)
  from bfs_loop_lower[OF this]
  show "finite (dom (parent (bfs_loop rv es target (bfs_init basics))))"
    "parents_lower_tier es (parent (bfs_loop rv es target (bfs_init basics)))" by blast+
next
  assume "finite (dom (parent m)) \<and> parents_lower_tier es (parent m)"
  from dfs_lower(1)[OF this]
  show "finite (dom (parent (snd (dfs_search rv reorder es current target m depth maxDepth targetTier))))"
   "parents_lower_tier es
        (parent (snd (dfs_search rv reorder es current target m depth maxDepth targetTier)))"
    by blast+
next
  have "finite (dom (forwardParent (bid_init es basics target))) \<and>
        parents_lower_tier es (forwardParent (bid_init es basics target))"
    by (simp add: bid_init_def parents_lower_tier_def)
  from bid_loop_lower[OF this]
  show "finite (dom (forwardParent (bid_loop es (bid_init es basics target))))"
    "parents_lower_tier es (forwardParent (bid_loop es (bid_init es basics target)))" by blast+
next
  have "finite (dom (parent no_marks)) \<and> parents_lower_tier es (parent no_marks)"
    by (simp add: no_marks_def parents_lower_tier_def)
  from dfs_starts_lower[OF this]
  show "finite (dom (parent (snd (dfs_starts rv es target maxDepth targetTier basics no_marks))))"
    "parents_lower_tier es
      (parent (snd (dfs_starts rv es target maxDepth targetTier basics no_marks)))" by blast+
next
  assume v: "variation_starts es target variationIndex maxDepth targetTier existingPaths 0 basics
      no_marks = Some (b, m')"
  have "finite (dom (parent no_marks)) \<and> parents_lower_tier es (parent no_marks)"
    by (simp add: no_marks_def parents_lower_tier_def)
  from variation_starts_lower[OF this v]
  show "finite (dom (parent m'))" "parents_lower_tier es (parent m')" by blast+
qed

theorem backpointers_descend_walk_terminates_witness:
  "\<exists>p. reconstructPath ''D''
          (parent (bfs_loop Loose demo_catalog ''D'' (bfs_init (GetBasicElements demo_catalog))))
        = Some p"
proof -
  let ?pm = "parent (bfs_loop Loose demo_catalog ''D'' (bfs_init (GetBasicElements demo_catalog)))"
  note inst = backpointers_descend_walk_terminates[where es = demo_catalog and rv = Loose
      and target = "''D''" and basics = "GetBasicElements demo_catalog" and pm = ?pm and t = "''D''"]
  have built: "finite (dom ?pm) \<and> parents_lower_tier demo_catalog ?pm"
    by (rule inst[THEN conjunct2, THEN conjunct1])
  show ?thesis
    by (rule inst[THEN conjunct1, rule_format, OF built, THEN conjunct1])
qed

section \<open>Behaviour on three catalogs\<close>

lemmas store_eval =
  element_def GetBasicElements_def List.map_filter_def GetElementTier_def
  getPossibleRecipesThatRespectTiers_def isIngredient_def allIngredientsLowerTier_def
  IsBasicElement_def

lemmas bfs_eval =
  BFS_FindShortestPath_def bfs_init_def bfs_loop.simps enqueue_def

text \<open>
  Claim C1 (tier validity of every returned path) fails in the earlier revision of the
  breadth-first finder: its filter compares the result tier with the tier of the expanded
  element only. On \<open>tier_violating_catalog\<close> it returns the recipe \<open>A + Z \<rightarrow> C\<close> although \<open>Z\<close> (tier
  2) is not below \<open>C\<close> (tier 1); the later revision, which checks every ingredient, finds
  no path there.
\<close>

theorem bfs_loose_returns_tier_invalid_recipe:
  "returned_path (BFS_FindShortestPath Loose tier_violating_catalog 0 ''C'') =
     Some [\<lparr>Ingredients = [''A'', ''Z''], Result = ''C''\<rparr>] \<and>
   GetElementTier tier_violating_catalog ''Z'' = 2 \<and>
   GetElementTier tier_violating_catalog ''C'' = 1 \<and>
   BFS_FindShortestPath Strict tier_violating_catalog 0 ''C'' = Returns (Inl ErrNoPathFound)"
  by (simp add: returned_path_def tier_violating_catalog_def store_eval bfs_eval tree_eval)

text \<open>
  Claim C5 (error taxonomy: outside the three errors a result is returned) fails where a
  recipe on the path names an ingredient that is no element of the catalog: the search
  finds the path, and \<open>buildTreeStructure\<close> then reads the image of a missing element.
\<close>

theorem bfs_panics_on_unknown_ingredient:
  "BFS_FindShortestPath Loose dangling_catalog 0 ''C'' = Panics \<and>
   BFS_FindShortestPath Strict dangling_catalog 0 ''C'' = Panics"
  by (simp add: dangling_catalog_def store_eval bfs_eval tree_eval)

text \<open>
  Claim C4 (pairwise distinct signatures) fails for \<open>FindMultiplePaths\<close> of the earlier
  revisions. In the breadth-first one every worker runs the same search; in the
  depth-first one the workers differ in start order and depth ceiling only. Nothing
  compares signatures, so two requested paths are the same path twice, in either
  finishing order.
\<close>

theorem multiple_paths_repeat_signature:
  "returned_signatures (BFS_FindMultiplePaths demo_catalog (\<lambda>index. 0) [0, 1] ''D'' 2) =
     Some [''D:A+C;'', ''D:A+C;''] \<and>
   returned_signatures (BFS_FindMultiplePaths demo_catalog (\<lambda>index. 0) [1, 0] ''D'' 2) =
     Some [''D:A+C;'', ''D:A+C;''] \<and>
   returned_signatures (DFS_FindMultiplePaths demo_catalog (\<lambda>index. 0) [0, 1] ''D'' 2) =
     Some [''C:A+B;D:A+C;'', ''C:A+B;D:A+C;''] \<and>
   returned_signatures (DFS_FindMultiplePaths demo_catalog (\<lambda>index. 0) [1, 0] ''D'' 2) =
     Some [''C:A+B;D:A+C;'', ''C:A+B;D:A+C;'']"
proof (intro conjI)
  show "returned_signatures (BFS_FindMultiplePaths demo_catalog (\<lambda>index. 0) [0, 1] ''D'' 2) =
     Some [''D:A+C;'', ''D:A+C;'']"
    "returned_signatures (BFS_FindMultiplePaths demo_catalog (\<lambda>index. 0) [1, 0] ''D'' 2) =
     Some [''D:A+C;'', ''D:A+C;'']"
    by (simp_all add: returned_signatures_def BFS_FindMultiplePaths_def
          BFS_findPathWithVariation_def demo_catalog_def store_eval bfs_eval tree_eval)
  show "returned_signatures (DFS_FindMultiplePaths demo_catalog (\<lambda>index. 0) [0, 1] ''D'' 2) =
     Some [''C:A+B;D:A+C;'', ''C:A+B;D:A+C;'']"
    "returned_signatures (DFS_FindMultiplePaths demo_catalog (\<lambda>index. 0) [1, 0] ''D'' 2) =
     Some [''C:A+B;D:A+C;'', ''C:A+B;D:A+C;'']"
    by (simp_all add: returned_signatures_def DFS_FindMultiplePaths_def wrap64_def
          DFS_findPathWithVariation_def dfsSearchWithTiers_def rotate_elements_def
          dfs_search.simps(1) no_marks_def mark_def unmark_def demo_eval tree_eval)
qed

section \<open>Repeated calls\<close>

text \<open>
  Claim C6 (repeated calls return identical paths) fails for the breadth-first search of
  the older package: \<open>bfs\<close> ranges over the element map, so the path it returns depends on
  the order in which the map yields its keys, which Go does not fix. On \<open>fork_elements\<close>
  the same call returns the path through \<open>X\<close> under one order and the path through \<open>Y\<close>
  under the other. The finders of the three engines range over slices only.
\<close>

theorem algorithm_bfs_depends_on_map_order:
  "algorithm_bfs x_first ''T'' fork_elements = Some [''air'', ''X'', ''T''] \<and>
   algorithm_bfs y_first ''T'' fork_elements = Some [''air'', ''Y'', ''T'']"
  by (simp add: algorithm_bfs_def algorithm_bfs_loop.simps base_def fork_elements_def
        x_first_def y_first_def containsAll_def visit_def)

section \<open>Properties of the bidirectional engine\<close>

lemma recipe_chain_append:
  "recipe_chain a p m \<Longrightarrow> recipe_chain m q b \<Longrightarrow> recipe_chain a (p @ q) b"
  by (induction p arbitrary: a) auto

lemma forward_expand_frame:
  "backward_part (forward_expand es current currentTier rs st) = backward_part st"
  by (induction rs arbitrary: st) (auto simp: backward_part_def forwardPush_def)

lemma forward_level_frame:
  "backwardVisited (forward_level es n st) = backwardVisited st \<and>
   backwardParent (forward_level es n st) = backwardParent st \<and>
   backwardTier (forward_level es n st) = backwardTier st \<and>
   backwardQueue (forward_level es n st) = backwardQueue st"
proof (induction n arbitrary: st)
  case 0
  then show ?case by simp
next
  case (Suc n)
  show ?case
  proof (cases "forwardQueue st")
    case Nil
    then show ?thesis by simp
  next
    case (Cons current rest)
    let ?st2 = "forward_expand es current (tierAt (forwardTier st) current)
                    (getValidRecipesWithElementAnyPosition es current) (st\<lparr>forwardQueue := rest\<rparr>)"
    have "backward_part ?st2 = backward_part st"
      by (simp add: forward_expand_frame) (simp add: backward_part_def)
    then show ?thesis using Suc.IH[of ?st2] Cons by (auto simp: backward_part_def)
  qed
qed

lemma backward_ingredients_frame:
  "forward_part (backward_ingredients es current currentTier recipe ings st) = forward_part st"
  by (induction ings arbitrary: st) (auto simp: forward_part_def backwardPush_def)

lemma backward_expand_frame:
  "forward_part (backward_expand es current currentTier rs st) = forward_part st"
  by (induction rs arbitrary: st) (auto simp: Let_def backward_ingredients_frame)

lemma backward_level_frame:
  "forwardVisited (backward_level es n st) = forwardVisited st \<and>
   forwardParent (backward_level es n st) = forwardParent st \<and>
   forwardTier (backward_level es n st) = forwardTier st \<and>
   forwardQueue (backward_level es n st) = forwardQueue st"
proof (induction n arbitrary: st)
  case 0
  then show ?case by simp
next
  case (Suc n)
  show ?case
  proof (cases "backwardQueue st")
    case Nil
    then show ?thesis by simp
  next
    case (Cons current rest)
    let ?st2 = "backward_expand es current (tierAt (backwardTier st) current) (Recipes es)
                  (st\<lparr>backwardQueue := rest\<rparr>)"
    have "forward_part ?st2 = forward_part st"
      by (simp add: backward_expand_frame) (simp add: forward_part_def)
    then show ?thesis using Suc.IH[of ?st2] Cons by (auto simp: forward_part_def)
  qed
qed

lemma forward_inv_push:
  assumes inv: "forward_inv es seeds st" and cur: "current \<in> forwardVisited st"
    and ing: "isIngredient current recipe" and ok: "allIngredientsLowerTier es recipe"
    and fresh: "Result recipe \<notin> forwardVisited st"
  shows "forward_inv es seeds (forwardPush es current recipe st)"
    and "forward_inv es seeds
           ((forwardPush es current recipe st)\<lparr>meetingPoint := mp, bidFound := fl\<rparr>)"
  using assms unfolding forward_inv_def forwardPush_def isIngredient_def
  by (auto split: if_splits)

lemma forward_expand_inv:
  "forward_inv es seeds st \<Longrightarrow> current \<in> forwardVisited st \<Longrightarrow>
   \<forall>r \<in> set rs. isIngredient current r \<Longrightarrow>
   forward_inv es seeds (forward_expand es current currentTier rs st)"
proof (induction rs arbitrary: st)
  case Nil
  then show ?case by simp
next
  case (Cons recipe rest)
  have rest: "\<forall>r \<in> set rest. isIngredient current r" and ing: "isIngredient current recipe"
    using Cons.prems(3) by simp_all
  have cur': "current \<in> forwardVisited (forwardPush es current recipe st)"
    using Cons.prems(2) by (simp add: forwardPush_def)
  show ?case
    using Cons.IH[OF Cons.prems(1,2) rest]
      Cons.IH[OF forward_inv_push(1)[OF Cons.prems(1,2) ing] cur' rest]
      forward_inv_push(2)[OF Cons.prems(1,2) ing]
    by auto
qed

lemma forward_expand_meet:
  "meet_inv st \<Longrightarrow> \<not> bidFound st \<Longrightarrow> meet_inv (forward_expand es current currentTier rs st)"
proof (induction rs arbitrary: st)
  case Nil
  then show ?case by simp
next
  case (Cons recipe rest)
  have p: "meet_inv (forwardPush es current recipe st)" "\<not> bidFound (forwardPush es current recipe st)"
    using Cons.prems by (auto simp: meet_inv_def forwardPush_def)
  show ?case
    using Cons.IH[OF Cons.prems] Cons.IH[OF p]
    by (auto simp: meet_inv_def forwardPush_def)
qed

lemma forward_level_inv:
  "forward_inv es seeds st \<Longrightarrow> forward_inv es seeds (forward_level es n st)"
proof (induction n arbitrary: st)
  case 0
  then show ?case by simp
next
  case (Suc n)
  show ?case
  proof (cases "forwardQueue st")
    case Nil
    then show ?thesis using Suc.prems by simp
  next
    case (Cons current rest)
    let ?st1 = "st\<lparr>forwardQueue := rest\<rparr>"
    let ?st2 = "forward_expand es current (tierAt (forwardTier st) current)
                    (getValidRecipesWithElementAnyPosition es current) ?st1"
    have i1: "forward_inv es seeds ?st1" "current \<in> forwardVisited ?st1"
      using Suc.prems Cons by (auto simp: forward_inv_def)
    have i1m: "forward_inv es seeds (?st1\<lparr>meetingPoint := current, bidFound := True\<rparr>)"
      using i1(1) by (simp add: forward_inv_def)
    have "forward_inv es seeds ?st2"
      by (rule forward_expand_inv[OF i1]) (simp add: getValidRecipesWithElementAnyPosition_def)
    from Suc.IH[OF this] show ?thesis using Cons Suc.prems i1m by simp
  qed
qed

lemma forward_level_meet:
  "forward_inv es seeds st \<Longrightarrow> meet_inv st \<Longrightarrow> meet_inv (forward_level es n st)"
proof (induction n arbitrary: st)
  case 0
  then show ?case by simp
next
  case (Suc n)
  show ?case
  proof (cases "bidFound st")
    case True
    then show ?thesis using Suc.prems by simp
  next
    case nf: False
    show ?thesis
    proof (cases "forwardQueue st")
      case Nil
      then show ?thesis using Suc.prems by simp
    next
      case (Cons current rest)
      let ?st1 = "st\<lparr>forwardQueue := rest\<rparr>"
      let ?st2 = "forward_expand es current (tierAt (forwardTier st) current)
                    (getValidRecipesWithElementAnyPosition es current) ?st1"
      have i1: "forward_inv es seeds ?st1" "current \<in> forwardVisited ?st1"
        using Suc.prems(1) Cons by (auto simp: forward_inv_def)
      have i2: "forward_inv es seeds ?st2"
        by (rule forward_expand_inv[OF i1]) (simp add: getValidRecipesWithElementAnyPosition_def)
      have m1: "meet_inv ?st1" "\<not> bidFound ?st1" using Suc.prems(2) nf by (auto simp: meet_inv_def)
      have m2: "meet_inv ?st2" by (rule forward_expand_meet[OF m1])
      have hit: "meet_inv (st\<lparr>forwardQueue := rest, meetingPoint := current, bidFound := True\<rparr>)"
        if "current \<in> backwardVisited st"
        using that i1(2) by (simp add: meet_inv_def)
      show ?thesis using Suc.IH[OF i2 m2] Cons nf hit by simp
    qed
  qed
qed

lemma backward_inv_push:
  assumes inv: "backward_inv es target st" and cur: "Result recipe \<in> backwardVisited st"
    and ing: "ingredient \<in> set (Ingredients recipe)" and ok: "allIngredientsLowerTier es recipe"
    and fresh: "ingredient \<notin> backwardVisited st"
  shows "backward_inv es target (backwardPush es (Result recipe) recipe ingredient st)"
    and "backward_inv es target
           ((backwardPush es (Result recipe) recipe ingredient st)\<lparr>meetingPoint := mp, bidFound := fl\<rparr>)"
proof -
  have lt: "GetElementTier es ingredient < GetElementTier es (Result recipe)"
    using ok ing by (auto simp: allIngredientsLowerTier_def list_all_iff)
  have le: "GetElementTier es (Result recipe) \<le> GetElementTier es target"
    using inv cur unfolding backward_inv_def by blast
  have ne: "ingredient \<noteq> target" using inv fresh unfolding backward_inv_def by blast
  show "backward_inv es target (backwardPush es (Result recipe) recipe ingredient st)"
    using inv cur ing ok fresh lt le ne unfolding backward_inv_def backwardPush_def
    by (auto split: if_splits)
  then show "backward_inv es target
           ((backwardPush es (Result recipe) recipe ingredient st)\<lparr>meetingPoint := mp, bidFound := fl\<rparr>)"
    by (simp add: backward_inv_def)
qed

lemma backward_ingredients_inv:
  "backward_inv es target st \<Longrightarrow> Result recipe \<in> backwardVisited st \<Longrightarrow>
   set ings \<subseteq> set (Ingredients recipe) \<Longrightarrow> allIngredientsLowerTier es recipe \<Longrightarrow>
   backward_inv es target (backward_ingredients es (Result recipe) currentTier recipe ings st)"
proof (induction ings arbitrary: st)
  case Nil
  then show ?case by simp
next
  case (Cons ingredient rest)
  have rest: "set rest \<subseteq> set (Ingredients recipe)" and ing: "ingredient \<in> set (Ingredients recipe)"
    using Cons.prems(3) by simp_all
  have cur': "Result recipe \<in> backwardVisited (backwardPush es (Result recipe) recipe ingredient st)"
    using Cons.prems(2) by (simp add: backwardPush_def)
  show ?case
    using Cons.IH[OF Cons.prems(1,2) rest Cons.prems(4)]
      Cons.IH[OF backward_inv_push(1)[OF Cons.prems(1,2) ing Cons.prems(4)] cur' rest Cons.prems(4)]
      backward_inv_push(2)[OF Cons.prems(1,2) ing Cons.prems(4)]
    by auto
qed

lemma backward_ingredients_meet:
  "meet_inv st \<Longrightarrow> \<not> bidFound st \<Longrightarrow>
   meet_inv (backward_ingredients es current currentTier recipe ings st)"
proof (induction ings arbitrary: st)
  case Nil
  then show ?case by simp
next
  case (Cons ingredient rest)
  have p: "meet_inv (backwardPush es current recipe ingredient st)"
    "\<not> bidFound (backwardPush es current recipe ingredient st)"
    using Cons.prems by (auto simp: meet_inv_def backwardPush_def)
  show ?case
    using Cons.IH[OF Cons.prems] Cons.IH[OF p]
    by (auto simp: meet_inv_def backwardPush_def)
qed

lemma backward_ingredients_visited_mono:
  "x \<in> backwardVisited st \<Longrightarrow>
   x \<in> backwardVisited (backward_ingredients es current currentTier recipe ings st)"
proof (induction ings arbitrary: st)
  case Nil
  then show ?case by simp
next
  case (Cons ingredient rest)
  have "x \<in> backwardVisited (backwardPush es current recipe ingredient st)"
    using Cons.prems by (simp add: backwardPush_def)
  from Cons.IH[OF this] Cons.IH[OF Cons.prems] Cons.prems
  show ?case by (auto simp: backwardPush_def)
qed

lemma backward_expand_inv:
  "backward_inv es target st \<Longrightarrow> current \<in> backwardVisited st \<Longrightarrow>
   currentTier = GetElementTier es current \<Longrightarrow>
   backward_inv es target (backward_expand es current currentTier rs st)"
proof (induction rs arbitrary: st)
  case Nil
  then show ?case by simp
next
  case (Cons recipe rest)
  show ?case
  proof (cases "Result recipe = current \<and>
                list_all (\<lambda>ingredient. \<not> GetElementTier es ingredient \<ge> currentTier) (Ingredients recipe)")
    case False
    then show ?thesis using Cons.IH[OF Cons.prems] by auto
  next
    case True
    then have ok: "allIngredientsLowerTier es recipe" and res: "Result recipe = current"
      using Cons.prems(3) by (simp_all add: allIngredientsLowerTier_def)
    let ?st' = "backward_ingredients es current currentTier recipe (Ingredients recipe) st"
    have i: "backward_inv es target ?st'"
      using backward_ingredients_inv[OF Cons.prems(1) _ _ ok, of "Ingredients recipe" currentTier]
        Cons.prems(2) res by simp
    have c: "current \<in> backwardVisited ?st'"
      using backward_ingredients_visited_mono[OF Cons.prems(2)] .
    show ?thesis using True i Cons.IH[OF i c Cons.prems(3)] by (simp add: Let_def)
  qed
qed

lemma backward_expand_meet:
  "meet_inv st \<Longrightarrow> \<not> bidFound st \<Longrightarrow> meet_inv (backward_expand es current currentTier rs st)"
proof (induction rs arbitrary: st)
  case Nil
  then show ?case by simp
next
  case (Cons recipe rest)
  let ?st' = "backward_ingredients es current currentTier recipe (Ingredients recipe) st"
  have m: "meet_inv ?st'" by (rule backward_ingredients_meet[OF Cons.prems])
  show ?case
    using Cons.IH[OF Cons.prems] Cons.IH[OF m] m by (auto simp: Let_def)
qed

lemma backward_level_inv:
  "backward_inv es target st \<Longrightarrow> backward_inv es target (backward_level es n st)"
proof (induction n arbitrary: st)
  case 0
  then show ?case by simp
next
  case (Suc n)
  show ?case
  proof (cases "backwardQueue st")
    case Nil
    then show ?thesis using Suc.prems by simp
  next
    case (Cons current rest)
    let ?st1 = "st\<lparr>backwardQueue := rest\<rparr>"
    let ?st2 = "backward_expand es current (tierAt (backwardTier st) current) (Recipes es) ?st1"
    have i1: "backward_inv es target ?st1" "current \<in> backwardVisited ?st1"
      using Suc.prems Cons by (auto simp: backward_inv_def)
    have t: "tierAt (backwardTier st) current = GetElementTier es current"
      using Suc.prems i1(2) by (auto simp: backward_inv_def tierAt_def)
    have i1m: "backward_inv es target (?st1\<lparr>meetingPoint := current, bidFound := True\<rparr>)"
      using i1(1) by (simp add: backward_inv_def)
    have "backward_inv es target ?st2"
      by (rule backward_expand_inv[OF i1 t])
    from Suc.IH[OF this] show ?thesis using Cons Suc.prems i1m by simp
  qed
qed

lemma backward_level_meet:
  "backward_inv es target st \<Longrightarrow> meet_inv st \<Longrightarrow> meet_inv (backward_level es n st)"
proof (induction n arbitrary: st)
  case 0
  then show ?case by simp
next
  case (Suc n)
  show ?case
  proof (cases "bidFound st")
    case True
    then show ?thesis using Suc.prems by simp
  next
    case nf: False
    show ?thesis
    proof (cases "backwardQueue st")
      case Nil
      then show ?thesis using Suc.prems by simp
    next
      case (Cons current rest)
      let ?st1 = "st\<lparr>backwardQueue := rest\<rparr>"
      let ?st2 = "backward_expand es current (tierAt (backwardTier st) current) (Recipes es) ?st1"
      have i1: "backward_inv es target ?st1" "current \<in> backwardVisited ?st1"
        using Suc.prems(1) Cons by (auto simp: backward_inv_def)
      have t: "tierAt (backwardTier st) current = GetElementTier es current"
        using Suc.prems(1) i1(2) by (auto simp: backward_inv_def tierAt_def)
      have i2: "backward_inv es target ?st2"
        by (rule backward_expand_inv[OF i1 t])
      have m1: "meet_inv ?st1" "\<not> bidFound ?st1" using Suc.prems(2) nf by (auto simp: meet_inv_def)
      have m2: "meet_inv ?st2" by (rule backward_expand_meet[OF m1])
      have hit: "meet_inv (st\<lparr>backwardQueue := rest, meetingPoint := current, bidFound := True\<rparr>)"
        if "current \<in> forwardVisited st"
        using that i1(2) by (simp add: meet_inv_def)
      show ?thesis using Suc.IH[OF i2 m2] Cons nf hit by simp
    qed
  qed
qed

lemma bid_loop_inv:
  "forward_inv es seeds st \<and> backward_inv es target st \<and> meet_inv st \<Longrightarrow>
   forward_inv es seeds (bid_loop es st) \<and> backward_inv es target (bid_loop es st) \<and>
   meet_inv (bid_loop es st)"
proof (induction es st rule: bid_loop.induct)
  case (1 es st)
  let ?st1 = "forward_level es (length (forwardQueue st)) st"
  let ?st2 = "backward_level es (length (backwardQueue ?st1)) ?st1"
  have f1: "forward_inv es seeds ?st1" using "1.prems" forward_level_inv by blast
  have m1: "meet_inv ?st1" using "1.prems" forward_level_meet by blast
  have b1: "backward_inv es target ?st1"
    using "1.prems" forward_level_frame[of es "length (forwardQueue st)" st]
    by (simp add: backward_inv_def)
  show ?case
  proof (cases "forwardQueue st \<noteq> [] \<and> backwardQueue st \<noteq> [] \<and> \<not> bidFound st")
    case False
    then show ?thesis using "1.prems" by (auto simp: bid_loop.simps[of es st])
  next
    case go: True
    show ?thesis
    proof (cases "bidFound ?st1")
      case True
      then have "bid_loop es st = ?st1" using go by (simp add: bid_loop.simps[of es st] Let_def)
      then show ?thesis using f1 m1 b1 by simp
    next
      case False
      have eq: "bid_loop es st = bid_loop es ?st2"
        using go False by (simp add: bid_loop.simps[of es st] Let_def)
      have b2: "backward_inv es target ?st2" using b1 backward_level_inv by blast
      have m2: "meet_inv ?st2" using b1 m1 backward_level_meet by blast
      have f2: "forward_inv es seeds ?st2"
        using f1 backward_level_frame[of es "length (backwardQueue ?st1)" ?st1]
        by (simp add: forward_inv_def)
      from "1.IH"[OF go refl False] f2 b2 m2 eq show ?thesis by simp
    qed
  qed
qed

lemma bid_init_inv:
  assumes "Elements es target \<noteq> None"
  shows "forward_inv es (set (map ID basics)) (bid_init es basics target) \<and>
         backward_inv es target (bid_init es basics target) \<and>
         meet_inv (bid_init es basics target)"
  by (auto simp: forward_inv_def backward_inv_def meet_inv_def bid_init_def)

lemma forward_walk_chain:
  assumes inv: "forward_inv es seeds st"
  shows "x \<in> forwardVisited st \<Longrightarrow>
         \<exists>q b. reconstructForwardPath_walk es (forwardParent st) x acc = Some (q @ acc) \<and>
               b \<in> seeds \<and> recipe_chain b q x"
proof (induction "card {y \<in> dom (forwardParent st). GetElementTier es y \<le> GetElementTier es x}"
         arbitrary: x acc rule: less_induct)
  case less
  have fin: "finite (dom (forwardParent st))" using inv by (simp add: forward_inv_def)
  have low: "parents_lower_tier es (forwardParent st)"
    unfolding parents_lower_tier_def
  proof (intro allI impI)
    fix y s assume s: "forwardParent st y = Some s"
    then have "Result (StepRecipe s) = y" "ParentID s \<in> set (Ingredients (StepRecipe s))"
      "allIngredientsLowerTier es (StepRecipe s)"
      using inv unfolding forward_inv_def by blast+
    then show "GetElementTier es (ParentID s) < GetElementTier es y"
      by (auto simp: allIngredientsLowerTier_def list_all_iff)
  qed
  show ?case
  proof (cases "forwardParent st x")
    case None
    then have "x \<in> seeds" using inv less.prems unfolding forward_inv_def by blast
    moreover have "reconstructForwardPath_walk es (forwardParent st) x acc = Some ([] @ acc)"
      using None by (subst reconstructForwardPath_walk.simps) simp
    ultimately show ?thesis by (metis recipe_chain.simps(1))
  next
    case (Some s)
    have p: "Result (StepRecipe s) = x" "ParentID s \<in> set (Ingredients (StepRecipe s))"
      "allIngredientsLowerTier es (StepRecipe s)" "ParentID s \<in> forwardVisited st"
      using inv Some unfolding forward_inv_def by blast+
    from less.hyps[OF walk_measure_step[OF fin low Some] p(4), of "StepRecipe s # acc"]
    obtain q b where q: "reconstructForwardPath_walk es (forwardParent st) (ParentID s)
        (StepRecipe s # acc) = Some (q @ StepRecipe s # acc)" "b \<in> seeds"
        "recipe_chain b q (ParentID s)" by blast
    have "reconstructForwardPath_walk es (forwardParent st) x acc = Some ((q @ [StepRecipe s]) @ acc)"
      using Some p(3) q(1) by (subst reconstructForwardPath_walk.simps) simp
    moreover have "recipe_chain b (q @ [StepRecipe s]) x"
      by (rule recipe_chain_append[OF q(3)]) (simp add: p)
    ultimately show ?thesis using q(2) by blast
  qed
qed

lemma backward_walk_chain:
  assumes inv: "backward_inv es target st"
  shows "x \<in> backwardVisited st \<Longrightarrow>
         \<exists>q. reconstructBackwardPath_walk es (backwardParent st) x acc = Some (acc @ q) \<and>
             recipe_chain x q target"
proof (induction "nat (GetElementTier es target - GetElementTier es x)"
         arbitrary: x acc rule: less_induct)
  case less
  show ?case
  proof (cases "backwardParent st x")
    case None
    then have "x = target" using inv less.prems unfolding backward_inv_def by blast
    moreover have "reconstructBackwardPath_walk es (backwardParent st) x acc = Some (acc @ [])"
      using None by (subst reconstructBackwardPath_walk.simps) simp
    ultimately show ?thesis by (metis recipe_chain.simps(1))
  next
    case (Some s)
    have p: "x \<in> set (Ingredients (StepRecipe s))" "Result (StepRecipe s) = ParentID s"
      "allIngredientsLowerTier es (StepRecipe s)" "ParentID s \<in> backwardVisited st"
      "GetElementTier es x < GetElementTier es (ParentID s)"
      using inv Some unfolding backward_inv_def by blast+
    have le: "GetElementTier es (ParentID s) \<le> GetElementTier es target"
      using inv p(4) unfolding backward_inv_def by blast
    have "nat (GetElementTier es target - GetElementTier es (ParentID s))
            < nat (GetElementTier es target - GetElementTier es x)"
      using p(5) le by linarith
    from less.hyps[OF this p(4), of "acc @ [StepRecipe s]"]
    obtain q where q: "reconstructBackwardPath_walk es (backwardParent st) (ParentID s)
        (acc @ [StepRecipe s]) = Some ((acc @ [StepRecipe s]) @ q)"
        "recipe_chain (ParentID s) q target" by blast
    have "reconstructBackwardPath_walk es (backwardParent st) x acc = Some (acc @ (StepRecipe s # q))"
      using Some p(3) q(1) by (subst reconstructBackwardPath_walk.simps) simp
    moreover have "recipe_chain x (StepRecipe s # q) target"
      using p(1,2) q(2) by simp
    ultimately show ?thesis by blast
  qed
qed

lemma assemble_path:
  "assemble es target path n elapsed vi = Returns (Inr r) \<Longrightarrow> Path r = path"
  by (auto simp: assemble_def split: run.splits)

text \<open>
  Claim C8. Bidirectional meeting point: when \<open>FindShortestPath\<close> of the bidirectional
  engine returns a result, the meeting identifier is in the forward-visited and in the
  backward-visited set, and the returned path is the forward partial path, which leads
  from a basic element to the meeting identifier, followed by the backward partial path,
  which leads from the meeting identifier to the target.
\<close>

theorem bid_meeting_point:
  assumes ret: "Bid_FindShortestPath es elapsed target = Returns (Inr r)"
  shows "\<exists>st forwardPath backwardPath b.
           st = bid_loop es (bid_init es (GetBasicElements es) target) \<and>
           meetingPoint st \<in> forwardVisited st \<and> meetingPoint st \<in> backwardVisited st \<and>
           reconstructForwardPath es (meetingPoint st) (forwardParent st) = Some forwardPath \<and>
           reconstructBackwardPath es (meetingPoint st) (backwardParent st) = Some backwardPath \<and>
           Path r = forwardPath @ backwardPath \<and>
           b \<in> set (map ID (GetBasicElements es)) \<and>
           recipe_chain b forwardPath (meetingPoint st) \<and>
           recipe_chain (meetingPoint st) backwardPath target"
proof -
  let ?st = "bid_loop es (bid_init es (GetBasicElements es) target)"
  have ex: "Elements es target \<noteq> None"
    using ret by (auto simp: Bid_FindShortestPath_def split: if_splits)
  have fnd: "bidFound ?st"
    using ret by (auto simp: Bid_FindShortestPath_def Let_def split: if_splits)
  have inv: "forward_inv es (set (map ID (GetBasicElements es))) ?st"
    "backward_inv es target ?st" "meet_inv ?st"
    using bid_loop_inv[OF bid_init_inv[OF ex]] by blast+
  have mp: "meetingPoint ?st \<in> forwardVisited ?st" "meetingPoint ?st \<in> backwardVisited ?st"
    using inv(3) fnd by (auto simp: meet_inv_def)
  obtain fp b where fp: "reconstructForwardPath es (meetingPoint ?st) (forwardParent ?st) = Some fp"
    "b \<in> set (map ID (GetBasicElements es))" "recipe_chain b fp (meetingPoint ?st)"
    using forward_walk_chain[OF inv(1) mp(1), of "[]"] by (auto simp: reconstructForwardPath_def)
  obtain bp where bp: "reconstructBackwardPath es (meetingPoint ?st) (backwardParent ?st) = Some bp"
    "recipe_chain (meetingPoint ?st) bp target"
    using backward_walk_chain[OF inv(2) mp(2), of "[]"] by (auto simp: reconstructBackwardPath_def)
  have "assemble es target (fp @ bp) (bidVisitedCount ?st) elapsed 0 = Returns (Inr r)"
    using ret ex fnd fp(1) bp(1)
    by (auto simp: Bid_FindShortestPath_def Let_def split: if_splits)
  then have "Path r = fp @ bp" by (rule assemble_path)
  then show ?thesis using mp fp bp by blast
qed

lemmas bid_eval =
  Bid_FindShortestPath_def bid_init_def bid_loop.simps forwardPush_def backwardPush_def
  tierAt_def getValidRecipesWithElementAnyPosition_def
  reconstructForwardPath_def reconstructForwardPath_walk.simps
  reconstructBackwardPath_def reconstructBackwardPath_walk.simps

lemma ladder_bid_meeting:
  "meetingPoint (bid_loop ladder_catalog (bid_init ladder_catalog (GetBasicElements ladder_catalog) ''E''))
     = ''C''"
  by (simp add: ladder_catalog_def store_eval bid_eval)

lemma ladder_bid_path:
  "returned_path (Bid_FindShortestPath ladder_catalog 0 ''E'') =
     Some [\<lparr>Ingredients = [''A'', ''A''], Result = ''B''\<rparr>,
           \<lparr>Ingredients = [''B'', ''B''], Result = ''C''\<rparr>,
           \<lparr>Ingredients = [''C'', ''C''], Result = ''D''\<rparr>,
           \<lparr>Ingredients = [''D'', ''D''], Result = ''E''\<rparr>]"
  by (simp add: returned_path_def ladder_catalog_def store_eval bid_eval tree_eval)

theorem bid_meeting_point_witness:
  "\<exists>r st forwardPath backwardPath b.
     Bid_FindShortestPath ladder_catalog 0 ''E'' = Returns (Inr r) \<and>
     st = bid_loop ladder_catalog (bid_init ladder_catalog (GetBasicElements ladder_catalog) ''E'') \<and>
     meetingPoint st = ''C'' \<and>
     meetingPoint st \<in> forwardVisited st \<and> meetingPoint st \<in> backwardVisited st \<and>
     reconstructForwardPath ladder_catalog (meetingPoint st) (forwardParent st) = Some forwardPath \<and>
     reconstructBackwardPath ladder_catalog (meetingPoint st) (backwardParent st) = Some backwardPath \<and>
     Path r = forwardPath @ backwardPath \<and>
     b \<in> set (map ID (GetBasicElements ladder_catalog)) \<and>
     recipe_chain b forwardPath (meetingPoint st) \<and>
     recipe_chain (meetingPoint st) backwardPath ''E''"
proof -
  obtain r where r: "Bid_FindShortestPath ladder_catalog 0 ''E'' = Returns (Inr r)"
    using returned_pathD[OF ladder_bid_path] by blast
  from bid_meeting_point[OF r] ladder_bid_meeting r show ?thesis by blast
qed

section \<open>Minimality of the breadth-first search\<close>

lemma expanded_stable:
  assumes "expanded rv es target lev st u" "u \<in> visited st"
    "visited st \<subseteq> visited st'" "\<forall>x \<in> visited st. lev' x = lev x"
  shows "expanded rv es target lev' st' u"
  using assms unfolding expanded_def by (metis subsetD)

lemma tree_ok_enqueue:
  assumes t: "tree_ok rv es target seeds lev st" and u: "u0 \<in> visited st"
    and e: "bfs_edge rv es target u0 recipe" and fresh: "Result recipe \<notin> visited st"
  shows "tree_ok rv es target seeds (lev(Result recipe := Suc (lev u0))) (enqueue u0 recipe st)"
proof -
  let ?v = "Result recipe"
  have ne: "u0 \<noteq> ?v" using u fresh by auto
  have vs: "?v \<notin> seeds" using t fresh unfolding tree_ok_def by auto
  have pv: "parent st ?v = None" using t fresh unfolding tree_ok_def by (cases "parent st ?v") auto
  show ?thesis
    unfolding tree_ok_def
  proof (intro conjI ballI allI impI)
    show "seeds \<subseteq> visited (enqueue u0 recipe st)"
      using t unfolding tree_ok_def enqueue_def by auto
  next
    fix x assume "x \<in> seeds"
    then show "(lev(?v := Suc (lev u0))) x = 0" "parent (enqueue u0 recipe st) x = None"
      using t vs unfolding tree_ok_def enqueue_def by auto
  next
    show "visited (enqueue u0 recipe st) \<subseteq> seeds \<union> dom (parent (enqueue u0 recipe st))"
      using t unfolding tree_ok_def enqueue_def by auto
  next
    fix x s assume ps: "parent (enqueue u0 recipe st) x = Some s"
    show "ParentID s \<in> visited (enqueue u0 recipe st)"
      "x \<in> visited (enqueue u0 recipe st)"
      "(lev(?v := Suc (lev u0))) x = Suc ((lev(?v := Suc (lev u0))) (ParentID s))"
      "Result (StepRecipe s) = x"
      "bfs_edge rv es target (ParentID s) (StepRecipe s)"
    proof -
      consider (new) "x = ?v" "s = \<lparr>ParentID = u0, StepRecipe = recipe\<rparr>"
        | (old) "x \<noteq> ?v" "parent st x = Some s"
        using ps unfolding enqueue_def by (auto split: if_splits)
      then have "ParentID s \<in> visited (enqueue u0 recipe st) \<and>
        x \<in> visited (enqueue u0 recipe st) \<and>
        (lev(?v := Suc (lev u0))) x = Suc ((lev(?v := Suc (lev u0))) (ParentID s)) \<and>
        Result (StepRecipe s) = x \<and>
        bfs_edge rv es target (ParentID s) (StepRecipe s)"
      proof cases
        case new
        then show ?thesis using u e ne by (simp add: enqueue_def)
      next
        case old
        then have o: "ParentID s \<in> visited st" "x \<in> visited st" "lev x = Suc (lev (ParentID s))"
          "Result (StepRecipe s) = x" "bfs_edge rv es target (ParentID s) (StepRecipe s)"
          using t unfolding tree_ok_def by blast+
        then have "ParentID s \<noteq> ?v" using fresh by auto
        then show ?thesis using o old by (simp add: enqueue_def)
      qed
      then show "ParentID s \<in> visited (enqueue u0 recipe st)"
      "x \<in> visited (enqueue u0 recipe st)"
      "(lev(?v := Suc (lev u0))) x = Suc ((lev(?v := Suc (lev u0))) (ParentID s))"
      "Result (StepRecipe s) = x"
      "bfs_edge rv es target (ParentID s) (StepRecipe s)" by blast+
    qed
  qed
qed

lemma inner_inv_enqueue:
  assumes inv: "inner_inv rv es target seeds lev u0 st"
    and e: "bfs_edge rv es target u0 recipe" and fresh: "Result recipe \<notin> visited st"
    and nt: "Result recipe \<noteq> target"
  shows "inner_inv rv es target seeds (lev(Result recipe := Suc (lev u0))) u0 (enqueue u0 recipe st)"
proof -
  let ?v = "Result recipe"
  let ?lev = "lev(?v := Suc (lev u0))"
  let ?st = "enqueue u0 recipe st"
  have t: "tree_ok rv es target seeds lev st" and nf: "\<not> found st" and u: "u0 \<in> visited st"
    and qv: "set (queue st) \<subseteq> visited st" and srt: "sorted (map lev (queue st))"
    and band: "\<forall>x \<in> set (queue st). lev u0 \<le> lev x \<and> lev x \<le> Suc (lev u0)"
    and don: "\<forall>u \<in> visited st. u \<notin> set (queue st) \<longrightarrow> u \<noteq> u0 \<longrightarrow>
        expanded rv es target lev st u \<and> lev u \<le> lev u0"
    and tq: "target \<in> visited st \<longrightarrow> target \<in> set (queue st)"
    using inv by (simp_all add: inner_inv_def)
  have ne: "u0 \<noteq> ?v" using u fresh by auto
  have vq: "?v \<notin> set (queue st)" using qv fresh by auto
  have agree: "\<forall>x \<in> visited st. ?lev x = lev x" using fresh by auto
  have mapq: "map ?lev (queue st) = map lev (queue st)" using vq by (auto simp: map_eq_conv)
  have vis: "visited ?st = insert ?v (visited st)" and que: "queue ?st = queue st @ [?v]"
    and fnd: "found ?st = found st"
    by (simp_all add: enqueue_def)
  show ?thesis
    unfolding inner_inv_def
  proof (intro conjI)
    show "tree_ok rv es target seeds ?lev ?st" by (rule tree_ok_enqueue[OF t u e fresh])
    show "\<not> found ?st" using nf fnd by simp
    show "u0 \<in> visited ?st" using u vis by simp
    show "set (queue ?st) \<subseteq> visited ?st" using qv vis que by auto
    have m: "map ?lev (queue ?st) = map lev (queue st) @ [Suc (lev u0)]"
      unfolding que map_append mapq by simp
    show "sorted (map ?lev (queue ?st))"
      unfolding m using srt band by (simp add: sorted_append)
    show "\<forall>x \<in> set (queue ?st). ?lev u0 \<le> ?lev x \<and> ?lev x \<le> Suc (?lev u0)"
      using band ne vq by (auto simp: que)
    show "\<forall>u \<in> visited ?st. u \<notin> set (queue ?st) \<longrightarrow> u \<noteq> u0 \<longrightarrow>
        expanded rv es target ?lev ?st u \<and> ?lev u \<le> ?lev u0"
    proof (intro ballI impI)
      fix u assume a: "u \<in> visited ?st" "u \<notin> set (queue ?st)" "u \<noteq> u0"
      then have uv: "u \<in> visited st" "u \<notin> set (queue st)" "u \<noteq> ?v" by (auto simp: vis que)
      then have d: "expanded rv es target lev st u" "lev u \<le> lev u0" using don a(3) by blast+
      have "expanded rv es target ?lev ?st u"
        by (rule expanded_stable[OF d(1) uv(1) _ agree]) (auto simp: vis)
      then show "expanded rv es target ?lev ?st u \<and> ?lev u \<le> ?lev u0"
        using d(2) uv(3) ne by simp
    qed
    show "target \<in> visited ?st \<longrightarrow> target \<in> set (queue ?st)"
      using tq nt by (auto simp: vis que)
  qed
qed

lemma inner_inv_found:
  assumes inv: "inner_inv rv es target seeds lev u0 st"
    and e: "bfs_edge rv es target u0 recipe" and fresh: "Result recipe \<notin> visited st"
    and it: "Result recipe = target"
  shows "tree_ok rv es target seeds (lev(Result recipe := Suc (lev u0)))
           ((enqueue u0 recipe st)\<lparr>found := True\<rparr>) \<and>
         settled rv es target (lev(Result recipe := Suc (lev u0)))
           ((enqueue u0 recipe st)\<lparr>found := True\<rparr>)"
proof -
  let ?v = "Result recipe"
  let ?lev = "lev(?v := Suc (lev u0))"
  let ?st = "(enqueue u0 recipe st)\<lparr>found := True\<rparr>"
  have t: "tree_ok rv es target seeds lev st" and u: "u0 \<in> visited st"
    and qv: "set (queue st) \<subseteq> visited st"
    and band: "\<forall>x \<in> set (queue st). lev u0 \<le> lev x \<and> lev x \<le> Suc (lev u0)"
    and don: "\<forall>u \<in> visited st. u \<notin> set (queue st) \<longrightarrow> u \<noteq> u0 \<longrightarrow>
        expanded rv es target lev st u \<and> lev u \<le> lev u0"
    using inv by (simp_all add: inner_inv_def)
  have ne: "u0 \<noteq> ?v" using u fresh by auto
  have agree: "\<forall>x \<in> visited st. ?lev x = lev x" using fresh by auto
  have vis: "visited ?st = insert ?v (visited st)" by (simp add: enqueue_def)
  have "tree_ok rv es target seeds ?lev (enqueue u0 recipe st)"
    by (rule tree_ok_enqueue[OF t u e fresh])
  then have t': "tree_ok rv es target seeds ?lev ?st" by (simp add: tree_ok_def)
  have "settled rv es target ?lev ?st"
    unfolding settled_def
  proof (intro conjI ballI impI)
    show "target \<in> visited ?st" using it vis by simp
  next
    fix w assume a: "w \<in> visited ?st" "Suc (?lev w) < ?lev target"
    have lt: "?lev w < lev u0" using a(2) it by simp
    then have wv: "w \<noteq> ?v" by auto
    then have w: "w \<in> visited st" "lev w < lev u0" using a(1) lt by (auto simp: vis)
    have "w \<notin> set (queue st)" using band w(2) by auto
    moreover have "w \<noteq> u0" using w(2) by auto
    ultimately have "expanded rv es target lev st w" using don w(1) by blast
    then show "expanded rv es target ?lev ?st w"
      by (rule expanded_stable[OF _ w(1) _ agree]) (auto simp: vis)
  qed
  then show ?thesis using t' by blast
qed

lemma inner_inv_level:
  assumes "inner_inv rv es target seeds lev u0 st" "x \<in> visited st"
  shows "lev x \<le> Suc (lev u0)"
proof -
  have band: "\<forall>x \<in> set (queue st). lev u0 \<le> lev x \<and> lev x \<le> Suc (lev u0)"
    and don: "\<forall>u \<in> visited st. u \<notin> set (queue st) \<longrightarrow> u \<noteq> u0 \<longrightarrow>
        expanded rv es target lev st u \<and> lev u \<le> lev u0"
    using assms(1) by (simp_all add: inner_inv_def)
  show ?thesis
  proof (cases "x \<in> set (queue st)")
    case True
    then show ?thesis using band by blast
  next
    case False
    then show ?thesis using don assms(2) by (cases "x = u0") (auto simp: le_Suc_eq)
  qed
qed

lemma inner_post_Cons:
  assumes post: "inner_post rv es target seeds u0 rest lev st lev' st'"
    and u: "u0 \<in> visited st"
    and hd: "bfs_edge rv es target u0 recipe \<longrightarrow>
               Result recipe \<in> visited st \<and> lev (Result recipe) \<le> Suc (lev u0)"
  shows "inner_post rv es target seeds u0 (recipe # rest) lev st lev' st'"
proof -
  have ag: "\<forall>x \<in> visited st. lev' x = lev x" and sub: "visited st \<subseteq> visited st'"
    using post by (simp_all add: inner_post_def)
  have "Result recipe \<in> visited st' \<and> lev' (Result recipe) \<le> Suc (lev' u0)"
    if "bfs_edge rv es target u0 recipe"
    using that hd ag sub u by auto
  then show ?thesis using post by (auto simp: inner_post_def)
qed

lemma inner_post_trans:
  assumes post: "inner_post rv es target seeds u0 rest lev1 st1 lev' st'"
    and ag: "\<forall>x \<in> visited st. lev1 x = lev x" and sub: "visited st \<subseteq> visited st1"
    and hd: "Result recipe \<in> visited st1" "lev1 (Result recipe) \<le> Suc (lev1 u0)"
    and u: "u0 \<in> visited st1"
  shows "inner_post rv es target seeds u0 (recipe # rest) lev st lev' st'"
proof -
  have ag1: "\<forall>x \<in> visited st1. lev' x = lev1 x" and sub1: "visited st1 \<subseteq> visited st'"
    using post by (simp_all add: inner_post_def)
  have a: "\<forall>x \<in> visited st. lev' x = lev x" using ag ag1 sub by auto
  have b: "visited st \<subseteq> visited st'" using sub sub1 by auto
  have c: "Result recipe \<in> visited st' \<and> lev' (Result recipe) \<le> Suc (lev' u0)"
    using hd ag1 sub1 u by auto
  show ?thesis using post a b c by (auto simp: inner_post_def)
qed

lemma bfs_expand_inv:
  "inner_inv rv es target seeds lev u0 st \<Longrightarrow>
   set rs \<subseteq> set (bfs_candidates rv es target u0) \<Longrightarrow>
   \<exists>lev'. inner_post rv es target seeds u0 rs lev st lev' (bfs_expand rv es target u0 rs st)"
proof (induction rs arbitrary: st lev)
  case Nil
  have "inner_post rv es target seeds u0 [] lev st lev st"
    using Nil.prems(1) by (simp add: inner_post_def inner_inv_def)
  then show ?case by auto
next
  case (Cons recipe rest)
  have rest: "set rest \<subseteq> set (bfs_candidates rv es target u0)"
    and mem: "recipe \<in> set (bfs_candidates rv es target u0)"
    using Cons.prems(2) by simp_all
  have u: "u0 \<in> visited st" using Cons.prems(1) by (simp add: inner_inv_def)
  let ?skip = "(rv = Strict \<and> \<not> allIngredientsLowerTier es recipe) \<or>
               GetElementTier es (Result recipe) \<le> GetElementTier es u0"
  consider (skip) "?skip" | (seen) "\<not> ?skip" "Result recipe \<in> visited st"
    | (hit) "\<not> ?skip" "Result recipe \<notin> visited st" "Result recipe = target"
    | (push) "\<not> ?skip" "Result recipe \<notin> visited st" "Result recipe \<noteq> target" by blast
  then show ?case
  proof cases
    case skip
    then have eq: "bfs_expand rv es target u0 (recipe # rest) st = bfs_expand rv es target u0 rest st"
      by auto
    have ne: "\<not> bfs_edge rv es target u0 recipe" using skip by (auto simp: bfs_edge_def)
    obtain lev' where "inner_post rv es target seeds u0 rest lev st lev' (bfs_expand rv es target u0 rest st)"
      using Cons.IH[OF Cons.prems(1) rest] by blast
    then have "inner_post rv es target seeds u0 (recipe # rest) lev st lev' (bfs_expand rv es target u0 rest st)"
      by (rule inner_post_Cons[OF _ u]) (simp add: ne)
    then show ?thesis unfolding eq by blast
  next
    case seen
    then have eq: "bfs_expand rv es target u0 (recipe # rest) st = bfs_expand rv es target u0 rest st"
      by auto
    have lv: "lev (Result recipe) \<le> Suc (lev u0)"
      by (rule inner_inv_level[OF Cons.prems(1) seen(2)])
    obtain lev' where "inner_post rv es target seeds u0 rest lev st lev' (bfs_expand rv es target u0 rest st)"
      using Cons.IH[OF Cons.prems(1) rest] by blast
    then have "inner_post rv es target seeds u0 (recipe # rest) lev st lev' (bfs_expand rv es target u0 rest st)"
      by (rule inner_post_Cons[OF _ u]) (simp add: seen lv)
    then show ?thesis unfolding eq by blast
  next
    case hit
    let ?lev = "lev(Result recipe := Suc (lev u0))"
    let ?st = "(enqueue u0 recipe st)\<lparr>found := True\<rparr>"
    have eq: "bfs_expand rv es target u0 (recipe # rest) st = ?st" using hit by auto
    have e: "bfs_edge rv es target u0 recipe" using hit(1) mem by (auto simp: bfs_edge_def)
    have "tree_ok rv es target seeds ?lev ?st \<and> settled rv es target ?lev ?st"
      by (rule inner_inv_found[OF Cons.prems(1) e hit(2,3)])
    moreover have "\<forall>x \<in> visited st. ?lev x = lev x" using hit(2) by auto
    moreover have "visited st \<subseteq> visited ?st" by (auto simp: enqueue_def)
    moreover have "found ?st" by simp
    ultimately have "inner_post rv es target seeds u0 (recipe # rest) lev st ?lev ?st"
      unfolding inner_post_def by simp
    then show ?thesis unfolding eq by blast
  next
    case push
    let ?lev = "lev(Result recipe := Suc (lev u0))"
    let ?st = "enqueue u0 recipe st"
    have eq: "bfs_expand rv es target u0 (recipe # rest) st = bfs_expand rv es target u0 rest ?st"
      using push by auto
    have e: "bfs_edge rv es target u0 recipe" using push(1) mem by (auto simp: bfs_edge_def)
    have inv1: "inner_inv rv es target seeds ?lev u0 ?st"
      by (rule inner_inv_enqueue[OF Cons.prems(1) e push(2,3)])
    obtain lev' where p: "inner_post rv es target seeds u0 rest ?lev ?st lev' (bfs_expand rv es target u0 rest ?st)"
      using Cons.IH[OF inv1 rest] by blast
    have ne: "u0 \<noteq> Result recipe" using u push(2) by auto
    have "inner_post rv es target seeds u0 (recipe # rest) lev st lev' (bfs_expand rv es target u0 rest ?st)"
    proof (rule inner_post_trans[OF p])
      show "\<forall>x \<in> visited st. ?lev x = lev x" using push(2) by auto
      show "visited st \<subseteq> visited ?st" by (auto simp: enqueue_def)
      show "Result recipe \<in> visited ?st" by (simp add: enqueue_def)
      show "?lev (Result recipe) \<le> Suc (?lev u0)" using ne by simp
      show "u0 \<in> visited ?st" using u by (simp add: enqueue_def)
    qed
    then show ?thesis unfolding eq by blast
  qed
qed

lemma expanded_frame:
  "visited st' = visited st \<Longrightarrow>
   expanded rv es target lev st' u = expanded rv es target lev st u"
  by (simp add: expanded_def)

lemma tree_ok_frame:
  "visited st' = visited st \<Longrightarrow> parent st' = parent st \<Longrightarrow>
   tree_ok rv es target seeds lev st' = tree_ok rv es target seeds lev st"
  by (simp add: tree_ok_def)

lemma outer_pop_target:
  assumes inv: "outer_inv rv es target seeds lev st" and nf: "\<not> found st"
    and q: "queue st = target # rest"
  shows "outer_inv rv es target seeds lev (st\<lparr>queue := rest, found := True\<rparr>)"
proof -
  let ?st = "st\<lparr>queue := rest, found := True\<rparr>"
  have t: "tree_ok rv es target seeds lev st"
    and qv: "set (queue st) \<subseteq> visited st" and srt: "sorted (map lev (queue st))"
    and don: "\<forall>u \<in> visited st. u \<notin> set (queue st) \<longrightarrow>
           expanded rv es target lev st u \<and> (\<forall>x \<in> set (queue st). lev u \<le> lev x)"
    using inv nf by (simp_all add: outer_inv_def)
  have t': "tree_ok rv es target seeds lev ?st" using t by (simp add: tree_ok_def)
  have hd: "\<forall>x \<in> set (queue st). lev target \<le> lev x" using srt q by auto
  have "settled rv es target lev ?st"
    unfolding settled_def
  proof (intro conjI ballI impI)
    show "target \<in> visited ?st" using qv q by auto
  next
    fix u assume a: "u \<in> visited ?st" "Suc (lev u) < lev target"
    have "u \<notin> set (queue st)" using hd a(2) by force
    then have "expanded rv es target lev st u" using don a(1) by simp
    then show "expanded rv es target lev ?st u" by (simp add: expanded_def)
  qed
  then show ?thesis using t' by (simp add: outer_inv_def)
qed

lemma inner_of_outer:
  assumes inv: "outer_inv rv es target seeds lev st" and nf: "\<not> found st"
    and q: "queue st = current # rest" and ct: "current \<noteq> target"
  shows "inner_inv rv es target seeds lev current (st\<lparr>queue := rest\<rparr>)"
proof -
  let ?st = "st\<lparr>queue := rest\<rparr>"
  have t: "tree_ok rv es target seeds lev st"
    and qv: "set (queue st) \<subseteq> visited st" and srt: "sorted (map lev (queue st))"
    and band: "\<forall>x \<in> set (queue st). \<forall>y \<in> set (queue st). lev y \<le> Suc (lev x)"
    and don: "\<forall>u \<in> visited st. u \<notin> set (queue st) \<longrightarrow>
           expanded rv es target lev st u \<and> (\<forall>x \<in> set (queue st). lev u \<le> lev x)"
    and tq: "target \<in> visited st \<longrightarrow> target \<in> set (queue st)"
    using inv nf by (simp_all add: outer_inv_def)
  show ?thesis
    unfolding inner_inv_def
  proof (intro conjI)
    show "tree_ok rv es target seeds lev ?st" using t by (simp add: tree_ok_def)
    show "\<not> found ?st" using nf by simp
    show "current \<in> visited ?st" using qv q by auto
    show "set (queue ?st) \<subseteq> visited ?st" using qv q by auto
    show "sorted (map lev (queue ?st))" using srt q by simp
    show "\<forall>x \<in> set (queue ?st). lev current \<le> lev x \<and> lev x \<le> Suc (lev current)"
      using srt band q by auto
    show "\<forall>u \<in> visited ?st. u \<notin> set (queue ?st) \<longrightarrow> u \<noteq> current \<longrightarrow>
        expanded rv es target lev ?st u \<and> lev u \<le> lev current"
    proof (intro ballI impI)
      fix u assume a: "u \<in> visited ?st" "u \<notin> set (queue ?st)" "u \<noteq> current"
      then have "u \<in> visited st" "u \<notin> set (queue st)" using q by auto
      then have "expanded rv es target lev st u" "lev u \<le> lev current" using don q by auto
      then show "expanded rv es target lev ?st u \<and> lev u \<le> lev current"
        by (simp add: expanded_def)
    qed
    show "target \<in> visited ?st \<longrightarrow> target \<in> set (queue ?st)" using tq q ct by auto
  qed
qed

lemma outer_of_inner:
  assumes inv: "inner_inv rv es target seeds lev u0 st"
    and all: "\<forall>r \<in> set (bfs_candidates rv es target u0). bfs_edge rv es target u0 r \<longrightarrow>
              Result r \<in> visited st \<and> lev (Result r) \<le> Suc (lev u0)"
  shows "outer_inv rv es target seeds lev st"
proof -
  have t: "tree_ok rv es target seeds lev st" and nf: "\<not> found st" and u: "u0 \<in> visited st"
    and qv: "set (queue st) \<subseteq> visited st" and srt: "sorted (map lev (queue st))"
    and band: "\<forall>x \<in> set (queue st). lev u0 \<le> lev x \<and> lev x \<le> Suc (lev u0)"
    and don: "\<forall>u \<in> visited st. u \<notin> set (queue st) \<longrightarrow> u \<noteq> u0 \<longrightarrow>
        expanded rv es target lev st u \<and> lev u \<le> lev u0"
    and tq: "target \<in> visited st \<longrightarrow> target \<in> set (queue st)"
    using inv by (simp_all add: inner_inv_def)
  have eu: "expanded rv es target lev st u0"
    using all unfolding expanded_def bfs_edge_def by blast
  have a: "\<forall>x \<in> set (queue st). \<forall>y \<in> set (queue st). lev y \<le> Suc (lev x)"
    using band by (meson le_trans not_less_eq_eq)
  have b: "\<forall>u \<in> visited st. u \<notin> set (queue st) \<longrightarrow>
           expanded rv es target lev st u \<and> (\<forall>x \<in> set (queue st). lev u \<le> lev x)"
  proof (intro ballI impI)
    fix u assume "u \<in> visited st" "u \<notin> set (queue st)"
    then show "expanded rv es target lev st u \<and> (\<forall>x \<in> set (queue st). lev u \<le> lev x)"
      using eu don band by (cases "u = u0") (auto intro: le_trans)
  qed
  show ?thesis using t nf qv srt a b tq by (simp add: outer_inv_def)
qed

lemma bfs_loop_inv:
  "outer_inv rv es target seeds lev st \<Longrightarrow>
   \<exists>lev'. outer_inv rv es target seeds lev' (bfs_loop rv es target st) \<and>
          (found (bfs_loop rv es target st) \<or> queue (bfs_loop rv es target st) = [])"
proof (induction rv es target st arbitrary: lev rule: bfs_loop.induct)
  case (1 rv es target st)
  show ?case
  proof (cases "queue st")
    case Nil
    then have "bfs_loop rv es target st = st" by (simp add: bfs_loop.simps[of rv es target st])
    then show ?thesis using "1.prems" Nil by auto
  next
    case (Cons current rest)
    consider (f) "found st" | (t) "\<not> found st" "current = target"
      | (e) "\<not> found st" "current \<noteq> target" by blast
    then show ?thesis
    proof cases
      case f
      then have "bfs_loop rv es target st = st"
        using Cons by (simp add: bfs_loop.simps[of rv es target st])
      then show ?thesis using "1.prems" f by auto
    next
      case t
      then have eq: "bfs_loop rv es target st = st\<lparr>queue := rest, found := True\<rparr>"
        using Cons by (simp add: bfs_loop.simps[of rv es target st])
      have "outer_inv rv es target seeds lev (st\<lparr>queue := rest, found := True\<rparr>)"
        using outer_pop_target[OF "1.prems" t(1)] Cons t(2) by simp
      then show ?thesis unfolding eq by auto
    next
      case e
      let ?st1 = "st\<lparr>queue := rest\<rparr>"
      let ?st2 = "bfs_expand rv es target current
                    (getPossibleRecipesThatRespectTiers rv es current
                       (GetElementTier es current) (GetElementTier es target)) ?st1"
      have eq: "bfs_loop rv es target st = bfs_loop rv es target ?st2"
        using Cons e by (simp add: bfs_loop.simps[of rv es target st])
      have i1: "inner_inv rv es target seeds lev current ?st1"
        by (rule inner_of_outer[OF "1.prems" e(1) Cons e(2)])
      obtain lev' where p: "inner_post rv es target seeds current (bfs_candidates rv es target current)
          lev ?st1 lev' ?st2"
        using bfs_expand_inv[OF i1, of "bfs_candidates rv es target current"]
        by (auto simp: bfs_candidates_def)
      have "outer_inv rv es target seeds lev' ?st2"
      proof (cases "found ?st2")
        case True
        then show ?thesis using p by (simp add: inner_post_def outer_inv_def)
      next
        case False
        then have "inner_inv rv es target seeds lev' current ?st2"
          "\<forall>r \<in> set (bfs_candidates rv es target current). bfs_edge rv es target current r \<longrightarrow>
              Result r \<in> visited ?st2 \<and> lev' (Result r) \<le> Suc (lev' current)"
          using p by (simp_all add: inner_post_def)
        then show ?thesis by (rule outer_of_inner)
      qed
      from "1.IH"[OF Cons e this] show ?thesis unfolding eq .
    qed
  qed
qed

lemma edge_chain_append:
  "edge_chain rv es target a p m \<Longrightarrow> edge_chain rv es target m q b \<Longrightarrow>
   edge_chain rv es target a (p @ q) b"
  by (induction p arbitrary: a) auto

lemma valid_chain_tier:
  "valid_chain es a q b \<Longrightarrow> GetElementTier es a \<le> GetElementTier es b"
proof (induction q arbitrary: a)
  case Nil
  then show ?case by simp
next
  case (Cons r rs)
  have "GetElementTier es a < GetElementTier es (Result r)"
    using Cons.prems by (auto simp: allIngredientsLowerTier_def list_all_iff)
  moreover have "GetElementTier es (Result r) \<le> GetElementTier es b"
    using Cons.IH Cons.prems by simp
  ultimately show ?case by simp
qed

lemma valid_chain_edge:
  "valid_chain es a q target \<Longrightarrow> edge_chain rv es target a q target"
proof (induction q arbitrary: a)
  case Nil
  then show ?case by simp
next
  case (Cons r rs)
  have up: "GetElementTier es a < GetElementTier es (Result r)"
    using Cons.prems by (auto simp: allIngredientsLowerTier_def list_all_iff)
  have le: "GetElementTier es (Result r) \<le> GetElementTier es target"
    using valid_chain_tier[of es "Result r" rs target] Cons.prems by simp
  have "bfs_edge rv es target a r"
    using Cons.prems up le
    by (cases rv)
       (auto simp: bfs_edge_def bfs_candidates_def getPossibleRecipesThatRespectTiers_def
          isIngredient_def)
  then show ?case using Cons.IH Cons.prems by simp
qed

lemma edge_chain_recipe_chain:
  "edge_chain rv es target a q b \<Longrightarrow> recipe_chain a q b"
proof (induction q arbitrary: a)
  case Nil
  then show ?case by simp
next
  case (Cons r rs)
  have "a \<in> set (Ingredients r)"
    using Cons.prems
    by (cases rv)
       (auto simp: bfs_edge_def bfs_candidates_def getPossibleRecipesThatRespectTiers_def
          isIngredient_def)
  then show ?case using Cons.IH Cons.prems by simp
qed

lemma edge_chain_valid:
  "edge_chain Strict es target a q b \<Longrightarrow> valid_chain es a q b"
proof (induction q arbitrary: a)
  case Nil
  then show ?case by simp
next
  case (Cons r rs)
  have "r \<in> set (Recipes es) \<and> a \<in> set (Ingredients r) \<and> allIngredientsLowerTier es r"
    using Cons.prems
    by (auto simp: bfs_edge_def bfs_candidates_def getPossibleRecipesThatRespectTiers_def
          isIngredient_def)
  then show ?case using Cons.IH Cons.prems by simp
qed

lemma settled_level:
  assumes s: "settled rv es target lev st"
  shows "edge_chain rv es target a q target \<Longrightarrow> a \<in> visited st \<Longrightarrow>
         lev target \<le> lev a + length q"
proof (induction q arbitrary: a)
  case Nil
  then show ?case by simp
next
  case (Cons r rs)
  show ?case
  proof (cases "Suc (lev a) < lev target")
    case True
    then have "expanded rv es target lev st a" using s Cons.prems(2) by (simp add: settled_def)
    then have v: "Result r \<in> visited st" "lev (Result r) \<le> Suc (lev a)"
      using Cons.prems(1) by (auto simp: expanded_def)
    have "lev target \<le> lev (Result r) + length rs"
      using Cons.IH[OF _ v(1)] Cons.prems(1) by simp
    then show ?thesis using v(2) by simp
  next
    case False
    then show ?thesis by simp
  qed
qed

lemma closed_reach:
  assumes c: "\<forall>u \<in> visited st. expanded rv es target lev st u"
  shows "edge_chain rv es target a q b \<Longrightarrow> a \<in> visited st \<Longrightarrow> b \<in> visited st"
proof (induction q arbitrary: a)
  case Nil
  then show ?case by simp
next
  case (Cons r rs)
  have "Result r \<in> visited st" using c Cons.prems by (auto simp: expanded_def)
  then show ?case using Cons.IH[of "Result r"] Cons.prems(1) by simp
qed

lemma tree_walk:
  assumes t: "tree_ok rv es target seeds lev st"
  shows "x \<in> visited st \<Longrightarrow>
         \<exists>p b. reconstructPath_walk (parent st) x acc = Some (p @ acc) \<and> length p = lev x \<and>
               b \<in> seeds \<and> edge_chain rv es target b p x"
proof (induction "lev x" arbitrary: x acc)
  case 0
  show ?case
  proof (cases "parent st x")
    case None
    then have "x \<in> seeds" using t "0.prems" unfolding tree_ok_def by blast
    moreover have "reconstructPath_walk (parent st) x acc = Some ([] @ acc)"
      using None by (subst reconstructPath_walk.simps) simp
    ultimately show ?thesis using "0.hyps" by (metis edge_chain.simps(1) list.size(3))
  next
    case (Some s)
    then have "lev x = Suc (lev (ParentID s))" using t by (simp add: tree_ok_def)
    then show ?thesis using "0.hyps" by simp
  qed
next
  case (Suc n)
  show ?case
  proof (cases "parent st x")
    case None
    then have "x \<in> seeds" using t Suc.prems unfolding tree_ok_def by blast
    then have "lev x = 0" using t by (simp add: tree_ok_def)
    then show ?thesis using Suc.hyps(2) by simp
  next
    case (Some s)
    have p: "ParentID s \<in> visited st" "lev x = Suc (lev (ParentID s))"
      "Result (StepRecipe s) = x" "bfs_edge rv es target (ParentID s) (StepRecipe s)"
      using t Some by (simp_all add: tree_ok_def)
    have n: "n = lev (ParentID s)" using Suc.hyps(2) p(2) by simp
    from Suc.hyps(1)[OF n p(1), of "StepRecipe s # acc"]
    obtain q b where q: "reconstructPath_walk (parent st) (ParentID s) (StepRecipe s # acc)
        = Some (q @ StepRecipe s # acc)" "length q = lev (ParentID s)" "b \<in> seeds"
        "edge_chain rv es target b q (ParentID s)" by blast
    have "reconstructPath_walk (parent st) x acc = Some ((q @ [StepRecipe s]) @ acc)"
      using Some q(1) by (subst reconstructPath_walk.simps) simp
    moreover have "length (q @ [StepRecipe s]) = lev x" using q(2) p(2) by simp
    moreover have "edge_chain rv es target b (q @ [StepRecipe s]) x"
      by (rule edge_chain_append[OF q(4)]) (simp add: p)
    ultimately show ?thesis using q(3) by blast
  qed
qed

lemma sorted_map_zero: "sorted (map ((\<lambda>x. 0::nat) \<circ> f) xs)"
  by (induction xs) auto

lemma bfs_init_outer:
  "outer_inv rv es target (set (map ID basics)) (\<lambda>x. 0) (bfs_init basics)"
  by (simp add: outer_inv_def tree_ok_def bfs_init_def expanded_def sorted_map_zero)

lemma bfs_loop_shortest:
  assumes ex: "Elements es target \<noteq> None"
    and b: "b \<in> set (map ID (GetBasicElements es))"
    and chain: "valid_chain es b q target"
  shows "\<exists>p. BFS_FindShortestPath rv es elapsed target =
               assemble es target p
                 (visitedCount (bfs_loop rv es target (bfs_init (GetBasicElements es)))) elapsed 0 \<and>
             length p \<le> length q \<and>
             (\<exists>b' \<in> set (map ID (GetBasicElements es)).
                recipe_chain b' p target \<and> (rv = Strict \<longrightarrow> valid_chain es b' p target))"
proof -
  let ?seeds = "set (map ID (GetBasicElements es))"
  let ?st = "bfs_loop rv es target (bfs_init (GetBasicElements es))"
  obtain lev where inv: "outer_inv rv es target ?seeds lev ?st"
    and ext: "found ?st \<or> queue ?st = []"
    using bfs_loop_inv[OF bfs_init_outer] by blast
  have t: "tree_ok rv es target ?seeds lev ?st" using inv by (simp add: outer_inv_def)
  have bv: "b \<in> visited ?st" and b0: "lev b = 0" using t b unfolding tree_ok_def by blast+
  have ec: "edge_chain rv es target b q target" by (rule valid_chain_edge[OF chain])
  have fnd: "found ?st"
  proof (rule ccontr)
    assume nf: "\<not> found ?st"
    then have qe: "queue ?st = []" using ext by simp
    have all: "\<forall>u \<in> visited ?st. expanded rv es target lev ?st u"
      and tq: "target \<in> visited ?st \<longrightarrow> target \<in> set (queue ?st)"
      using inv nf qe by (simp_all add: outer_inv_def)
    have "target \<in> visited ?st" by (rule closed_reach[OF all ec bv])
    then show False using tq qe by simp
  qed
  then have st: "settled rv es target lev ?st" using inv by (simp add: outer_inv_def)
  have le: "lev target \<le> length q" using settled_level[OF st ec bv] b0 by simp
  have tv: "target \<in> visited ?st" using st by (simp add: settled_def)
  obtain p b' where p: "reconstructPath_walk (parent ?st) target [] = Some (p @ [])"
    "length p = lev target" "b' \<in> ?seeds" "edge_chain rv es target b' p target"
    using tree_walk[OF t tv, of "[]"] by blast
  have ne: "GetBasicElements es \<noteq> []" using b by auto
  have "BFS_FindShortestPath rv es elapsed target =
          assemble es target p (visitedCount ?st) elapsed 0"
    using ex ne fnd p(1) by (auto simp: BFS_FindShortestPath_def Let_def finish_def reconstructPath_def)
  moreover have "length p \<le> length q" using p(2) le by simp
  moreover have "recipe_chain b' p target" by (rule edge_chain_recipe_chain[OF p(4)])
  moreover have "rv = Strict \<longrightarrow> valid_chain es b' p target"
    using p(4) edge_chain_valid by blast
  ultimately show ?thesis using p(3) by blast
qed

text \<open>
  Claim C2. Minimality of the breadth-first search, in the later revision: for a target
  of the catalog that a tier-valid path \<open>q\<close> reaches from a basic element, the search finds
  a path \<open>p\<close>, the outcome of \<open>FindShortestPath\<close> is the result assembled from \<open>p\<close>, \<open>p\<close> is
  itself a tier-valid path from a basic element to the target, and \<open>p\<close> has at most as
  many recipes as \<open>q\<close>.
\<close>

theorem bfs_minimality:
  assumes ex: "Elements es target \<noteq> None"
    and b: "b \<in> set (map ID (GetBasicElements es))"
    and chain: "valid_chain es b q target"
  shows "\<exists>p. BFS_FindShortestPath Strict es elapsed target =
               assemble es target p
                 (visitedCount (bfs_loop Strict es target (bfs_init (GetBasicElements es))))
                 elapsed 0 \<and>
             length p \<le> length q \<and>
             (\<exists>b' \<in> set (map ID (GetBasicElements es)).
                recipe_chain b' p target \<and> valid_chain es b' p target)"
  using bfs_loop_shortest[OF assms, of Strict elapsed] by simp

lemma demo_bfs_path:
  "returned_path (BFS_FindShortestPath Strict demo_catalog 0 ''D'') =
     Some [\<lparr>Ingredients = [''A'', ''C''], Result = ''D''\<rparr>]"
  by (simp add: returned_path_def demo_catalog_def store_eval bfs_eval tree_eval)

theorem bfs_minimality_witness:
  "returned_path (BFS_FindShortestPath Strict demo_catalog 0 ''D'') =
     Some [\<lparr>Ingredients = [''A'', ''C''], Result = ''D''\<rparr>] \<and>
   (\<exists>p. BFS_FindShortestPath Strict demo_catalog 0 ''D'' =
          assemble demo_catalog ''D'' p
            (visitedCount (bfs_loop Strict demo_catalog ''D''
               (bfs_init (GetBasicElements demo_catalog)))) 0 0 \<and>
        length p \<le> length [\<lparr>Ingredients = [''A'', ''B''], Result = ''C''\<rparr>,
                             \<lparr>Ingredients = [''A'', ''C''], Result = ''D''\<rparr>] \<and>
        (\<exists>b' \<in> set (map ID (GetBasicElements demo_catalog)).
           recipe_chain b' p ''D'' \<and> valid_chain demo_catalog b' p ''D''))"
proof -
  have ex: "Elements demo_catalog ''D'' \<noteq> None" by (simp add: demo_catalog_def)
  have b: "''A'' \<in> set (map ID (GetBasicElements demo_catalog))"
    by (simp add: demo_catalog_def store_eval)
  have chain: "valid_chain demo_catalog ''A''
      [\<lparr>Ingredients = [''A'', ''B''], Result = ''C''\<rparr>,
       \<lparr>Ingredients = [''A'', ''C''], Result = ''D''\<rparr>] ''D''"
    by (simp add: demo_catalog_def store_eval)
  show ?thesis
    using demo_bfs_path bfs_minimality[OF ex b chain, of 0] by blast
qed

subsection \<open>The earlier revision\<close>

lemma shortcut_strict_path:
  "returned_path (BFS_FindShortestPath Strict shortcut_catalog 0 ''T'') =
     Some [\<lparr>Ingredients = [''A'', ''A''], Result = ''C''\<rparr>,
           \<lparr>Ingredients = [''C'', ''C''], Result = ''T''\<rparr>]"
  by (simp add: returned_path_def shortcut_catalog_def store_eval bfs_eval tree_eval)

text \<open>Every tier-valid path from a basic element of \<open>shortcut_catalog\<close> to \<open>T\<close> has two recipes or more.\<close>

lemma shortcut_valid_paths_long:
  assumes b: "b \<in> set (map ID (GetBasicElements shortcut_catalog))"
    and chain: "valid_chain shortcut_catalog b q ''T''"
  shows "2 \<le> length q"
proof -
  have ex: "Elements shortcut_catalog ''T'' \<noteq> None" by (simp add: shortcut_catalog_def)
  obtain p where p: "BFS_FindShortestPath Strict shortcut_catalog 0 ''T'' =
        assemble shortcut_catalog ''T'' p
          (visitedCount (bfs_loop Strict shortcut_catalog ''T''
             (bfs_init (GetBasicElements shortcut_catalog)))) 0 0"
    and le: "length p \<le> length q"
    using bfs_loop_shortest[OF ex b chain, of Strict 0] by blast
  obtain r where r: "BFS_FindShortestPath Strict shortcut_catalog 0 ''T'' = Returns (Inr r)"
    "Path r = [\<lparr>Ingredients = [''A'', ''A''], Result = ''C''\<rparr>,
               \<lparr>Ingredients = [''C'', ''C''], Result = ''T''\<rparr>]"
    using returned_pathD[OF shortcut_strict_path] by blast
  have "Path r = p" using p r(1) by (auto simp: assemble_def split: run.splits)
  then have "length p = 2" using r(2) by auto
  then show ?thesis using le by simp
qed

text \<open>
  The earlier revision of the breadth-first finder does not have the property, by the
  missing ingredient check of its filter: on \<open>shortcut_catalog\<close> it returns the single
  recipe \<open>A + Y \<rightarrow> T\<close>, which is not tier-valid (\<open>Y\<close> has tier 5, \<open>T\<close> tier 2), where the
  tier-valid paths have two recipes or more and the later revision returns one of two.
\<close>

theorem bfs_loose_returns_invalid_shortcut:
  "returned_path (BFS_FindShortestPath Loose shortcut_catalog 0 ''T'') =
     Some [\<lparr>Ingredients = [''A'', ''Y''], Result = ''T''\<rparr>] \<and>
   \<not> allIngredientsLowerTier shortcut_catalog \<lparr>Ingredients = [''A'', ''Y''], Result = ''T''\<rparr> \<and>
   valid_chain shortcut_catalog ''A''
     [\<lparr>Ingredients = [''A'', ''A''], Result = ''C''\<rparr>,
      \<lparr>Ingredients = [''C'', ''C''], Result = ''T''\<rparr>] ''T'' \<and>
   returned_path (BFS_FindShortestPath Strict shortcut_catalog 0 ''T'') =
     Some [\<lparr>Ingredients = [''A'', ''A''], Result = ''C''\<rparr>,
           \<lparr>Ingredients = [''C'', ''C''], Result = ''T''\<rparr>]"
  by (simp add: returned_path_def shortcut_catalog_def store_eval bfs_eval tree_eval)

end
